theory Spec2Isabelle
  imports Complex_Main "HOL-Library.Sublist"
begin

section \<open>Paths\<close>

text \<open>
  The model follows \<^verbatim>\<open>src/template/build/events/postbuild.py\<close>. A path of the
  file system is the list of its components below the root. A path as the command line
  gives it is absolute or relative (POSIX flavour of \<^verbatim>\<open>pathlib\<close>): \<open>Path\<close>
  splits the string at the slashes and drops empty components and single dots. The model
  has no symbolic links and no \<^verbatim>\<open>..\<close> components, so \<^verbatim>\<open>resolve()\<close>
  only makes a path absolute against the working directory and is the identity on a path
  that already is.
\<close>

type_synonym path = "string list"

datatype pypath = Absolute path | Relative path

fun split_path :: "string \<Rightarrow> string \<Rightarrow> string list" where
  "split_path cur [] = [cur]"
| "split_path cur (c # cs) =
     (if c = CHR ''/'' then cur # split_path [] cs else split_path (cur @ [c]) cs)"

definition parts :: "string \<Rightarrow> path" where
  "parts s = filter (\<lambda>x. x \<noteq> [] \<and> x \<noteq> ''.'') (split_path [] s)"

definition Path :: "string \<Rightarrow> pypath" where
  "Path s = (if s \<noteq> [] \<and> hd s = CHR ''/'' then Absolute (parts s) else Relative (parts s))"

fun is_absolute :: "pypath \<Rightarrow> bool" where
  "is_absolute (Absolute p) = True"
| "is_absolute (Relative p) = False"

text \<open>\<^verbatim>\<open>base / entry\<close> for an absolute \<open>base\<close>, and \<^verbatim>\<open>p.resolve()\<close>
  in the working directory \<open>cwd\<close>.\<close>

fun join_py :: "path \<Rightarrow> pypath \<Rightarrow> path" where
  "join_py base (Absolute p) = p"
| "join_py base (Relative r) = base @ r"

definition resolve :: "path \<Rightarrow> pypath \<Rightarrow> path" where
  "resolve cwd p = join_py cwd p"

text \<open>\<^verbatim>\<open>p.name\<close> (empty for the root), \<^verbatim>\<open>p.parent\<close> (the root is its own
  parent) and \<^verbatim>\<open>d / name\<close> for one name (joining the empty name gives \<open>d\<close>).\<close>

definition path_name :: "path \<Rightarrow> string" where
  "path_name p = (if p = [] then [] else last p)"

definition path_parent :: "path \<Rightarrow> path" where
  "path_parent p = butlast p"

definition joinpath :: "path \<Rightarrow> string \<Rightarrow> path" where
  "joinpath d n = (if n = [] then d else d @ [n])"

text \<open>\<^verbatim>\<open>str.lower()\<close> on the ASCII letters.\<close>

definition lower_char :: "char \<Rightarrow> char" where
  "lower_char c =
     (case map_of (zip ''ABCDEFGHIJKLMNOPQRSTUVWXYZ'' ''abcdefghijklmnopqrstuvwxyz'') c of
        Some l \<Rightarrow> l
      | None \<Rightarrow> c)"

definition str_lower :: "string \<Rightarrow> string" where
  "str_lower s = map lower_char s"

section \<open>The file system\<close>

text \<open>
  A file system maps a path to its entry: a regular file with its content, or a directory
  with the names \<^verbatim>\<open>iterdir()\<close> lists, in the order it lists them (a name that is
  written moves to the end; a name is never empty). The operations
  below are the model of \<^verbatim>\<open>pathlib\<close> and \<^verbatim>\<open>shutil\<close> the program runs on: each
  either raises, leaving the file system as it was, or returns the new file system.
  Permissions, symbolic links and special files are not modelled; a tree is copied as it
  stood when the copy began.
\<close>

type_synonym content = string

datatype entry = File content | Dir "string list"

type_synonym fsys = "path \<Rightarrow> entry option"

datatype exn =
    FileNotFoundError
  | NotADirectoryError
  | IsADirectoryError
  | FileExistsError
  | SameFileError
  | Exit int
  | Terminated

definition path_exists :: "fsys \<Rightarrow> path \<Rightarrow> bool" where
  "path_exists fs p = (fs p \<noteq> None)"

definition is_dir :: "fsys \<Rightarrow> path \<Rightarrow> bool" where
  "is_dir fs p = (case fs p of Some (Dir ns) \<Rightarrow> True | _ \<Rightarrow> False)"

definition is_file :: "fsys \<Rightarrow> path \<Rightarrow> bool" where
  "is_file fs p = (case fs p of Some (File c) \<Rightarrow> True | _ \<Rightarrow> False)"

definition iterdir :: "fsys \<Rightarrow> path \<Rightarrow> exn + path list" where
  "iterdir fs p =
     (case fs p of
        None \<Rightarrow> Inl FileNotFoundError
      | Some (File c) \<Rightarrow> Inl NotADirectoryError
      | Some (Dir ns) \<Rightarrow> Inr (map (joinpath p) (filter (\<lambda>n. n \<noteq> []) ns)))"

text \<open>Entering a name into, and removing it from, the listing of its directory.\<close>

definition link_entry :: "fsys \<Rightarrow> path \<Rightarrow> fsys" where
  "link_entry fs p =
     (if p = [] then fs
      else case fs (butlast p) of
             Some (Dir ns) \<Rightarrow> fs(butlast p \<mapsto> Dir (removeAll (last p) ns @ [last p]))
           | _ \<Rightarrow> fs)"

definition unlink_entry :: "fsys \<Rightarrow> path \<Rightarrow> fsys" where
  "unlink_entry fs p =
     (if p = [] then fs
      else case fs (butlast p) of
             Some (Dir ns) \<Rightarrow> fs(butlast p \<mapsto> Dir (removeAll (last p) ns))
           | _ \<Rightarrow> fs)"

text \<open>\<^verbatim>\<open>Path.unlink()\<close>.\<close>

definition unlink :: "fsys \<Rightarrow> path \<Rightarrow> exn + fsys" where
  "unlink fs p =
     (case fs p of
        None \<Rightarrow> Inl FileNotFoundError
      | Some (Dir ns) \<Rightarrow> Inl IsADirectoryError
      | Some (File c) \<Rightarrow> Inr (unlink_entry (fs(p := None)) p))"

text \<open>\<^verbatim>\<open>shutil.rmtree(p)\<close>: the directory and everything below it.\<close>

definition rmtree :: "fsys \<Rightarrow> path \<Rightarrow> exn + fsys" where
  "rmtree fs p =
     (case fs p of
        None \<Rightarrow> Inl FileNotFoundError
      | Some (File c) \<Rightarrow> Inl NotADirectoryError
      | Some (Dir ns) \<Rightarrow> Inr (unlink_entry (\<lambda>q. if prefix p q then None else fs q) p))"

text \<open>\<^verbatim>\<open>Path.mkdir(parents=True, exist_ok=True)\<close>: a directory that exists is left
  alone, a file in the way raises, missing parents are made first.\<close>

function mkdir_p :: "fsys \<Rightarrow> path \<Rightarrow> exn + fsys" where
  "mkdir_p fs p =
     (if is_dir fs p then Inr fs
      else if path_exists fs p then Inl FileExistsError
      else if p = [] then Inl FileNotFoundError
      else if path_exists fs (butlast p) \<and> \<not> is_dir fs (butlast p) then Inl NotADirectoryError
      else case mkdir_p fs (butlast p) of
             Inl e \<Rightarrow> Inl e
           | Inr fs1 \<Rightarrow> Inr (link_entry (fs1(p \<mapsto> Dir [])) p))"
  by pat_completeness auto
termination
  by (relation "measure (\<lambda>(fs, p). length p)") auto

declare mkdir_p.simps [simp del]

text \<open>\<^verbatim>\<open>shutil.copy2(src, dst)\<close>: a destination that is a directory takes the file
  under the source's name.\<close>

definition copy2 :: "fsys \<Rightarrow> path \<Rightarrow> path \<Rightarrow> exn + fsys" where
  "copy2 fs src dst =
     (let dst' = (if is_dir fs dst then joinpath dst (path_name src) else dst) in
      if path_exists fs src \<and> src = dst' then Inl SameFileError
      else case fs src of
             None \<Rightarrow> Inl FileNotFoundError
           | Some (Dir ns) \<Rightarrow> Inl IsADirectoryError
           | Some (File c) \<Rightarrow>
               if is_dir fs dst' then Inl IsADirectoryError
               else if \<not> path_exists fs (path_parent dst') then Inl FileNotFoundError
               else if \<not> is_dir fs (path_parent dst') then Inl NotADirectoryError
               else Inr (link_entry (fs(dst' \<mapsto> File c)) dst'))"

text \<open>\<^verbatim>\<open>shutil.copytree(src, dst)\<close>: the destination must not exist; its missing
  parents are made.\<close>

definition copytree :: "fsys \<Rightarrow> path \<Rightarrow> path \<Rightarrow> exn + fsys" where
  "copytree fs src dst =
     (case fs src of
        None \<Rightarrow> Inl FileNotFoundError
      | Some (File c) \<Rightarrow> Inl NotADirectoryError
      | Some (Dir ns) \<Rightarrow>
          if path_exists fs dst then Inl FileExistsError
          else (case mkdir_p fs (path_parent dst) of
                  Inl e \<Rightarrow> Inl e
                | Inr fs1 \<Rightarrow>
                    Inr (link_entry
                          (\<lambda>q. if prefix dst q then fs (src @ drop (length dst) q) else fs1 q)
                          dst)))"

section \<open>Console, commands and exceptions\<close>

text \<open>
  What the program prints and the commands it runs are events, recorded in order. A
  message is its level, its text without the values, and the values.
\<close>

datatype level = INFO | WARN | ERROR | OK | STEP | PLAIN

datatype event =
    Say level string "string list"
  | Run "string list" "(string \<times> string) list"
  | Popen "string list" path "(string \<times> string) list"
  | Sleep real
  | Copied_total nat

definition info :: "string \<Rightarrow> string list \<Rightarrow> event" where
  "info m args = Say INFO m args"

definition warn :: "string \<Rightarrow> string list \<Rightarrow> event" where
  "warn m args = Say WARN m args"

definition error :: "string \<Rightarrow> string list \<Rightarrow> event" where
  "error m args = Say ERROR m args"

definition ok :: "string \<Rightarrow> string list \<Rightarrow> event" where
  "ok m args = Say OK m args"

definition step :: "string \<Rightarrow> string list \<Rightarrow> event" where
  "step m args = Say STEP m args"

fun exn_name :: "exn \<Rightarrow> string" where
  "exn_name FileNotFoundError = ''FileNotFoundError''"
| "exn_name NotADirectoryError = ''NotADirectoryError''"
| "exn_name IsADirectoryError = ''IsADirectoryError''"
| "exn_name FileExistsError = ''FileExistsError''"
| "exn_name SameFileError = ''SameFileError''"
| "exn_name (Exit n) = ''Exit''"
| "exn_name Terminated = ''Terminated''"

text \<open>The truth value Python gives an optional string: \<^verbatim>\<open>None\<close> and the empty string
  are false.\<close>

fun truthy :: "string option \<Rightarrow> bool" where
  "truthy None = False"
| "truthy (Some s) = (s \<noteq> [])"

fun path_str :: "pypath \<Rightarrow> string" where
  "path_str (Absolute p) = concat (map (\<lambda>c. ''/'' @ c) p)"
| "path_str (Relative p) = (if p = [] then ''.'' else tl (concat (map (\<lambda>c. ''/'' @ c) p)))"

text \<open>
  The functions that clean and copy read and write the files and print; they read neither
  the console nor the clock. Each is a function of the file system that gives its result
  (or the exception that left it), the file system it leaves, and the events it printed.
  \<open>andthen\<close> runs the next statement unless an exception was raised; \<open>said\<close> puts
  events before those of what follows.
\<close>

type_synonym 'a io = "(exn + 'a) \<times> fsys \<times> event list"

definition attempt :: "exn + fsys \<Rightarrow> fsys \<Rightarrow> unit io" where
  "attempt r fs = (case r of Inl e \<Rightarrow> (Inl e, fs, []) | Inr fs' \<Rightarrow> (Inr (), fs', []))"

definition andthen :: "'a io \<Rightarrow> ('a \<Rightarrow> fsys \<Rightarrow> 'b io) \<Rightarrow> 'b io" where
  "andthen r f =
     (case r of
        (Inl e, fs, out) \<Rightarrow> (Inl e, fs, out)
      | (Inr x, fs, out) \<Rightarrow> (case f x fs of (r', fs', out') \<Rightarrow> (r', fs', out @ out')))"

definition said :: "event list \<Rightarrow> 'a io \<Rightarrow> 'a io" where
  "said es r = (case r of (x, fs, out) \<Rightarrow> (x, fs, es @ out))"

section \<open>Cleaning and copying\<close>

text \<open>\<^verbatim>\<open>clean_mods_dir\<close>: every entry of the mods directory is removed; a removal
  that raises is a warning.\<close>

fun clean_items :: "path list \<Rightarrow> fsys \<Rightarrow> fsys \<times> event list" where
  "clean_items [] fs = (fs, [])"
| "clean_items (item # items) fs =
     (case (if is_dir fs item then rmtree fs item else unlink fs item) of
        Inl e \<Rightarrow>
          (case clean_items items fs of
             (fs', out) \<Rightarrow> (fs', warn ''Failed to remove'' [path_name item, exn_name e] # out))
      | Inr fs1 \<Rightarrow> clean_items items fs1)"

definition clean_mods_dir :: "path \<Rightarrow> fsys \<Rightarrow> unit io" where
  "clean_mods_dir mods_dir_path fs =
     said [step ''Cleaning mods directory'' []]
       (if \<not> path_exists fs mods_dir_path
        then (Inr (), fs, [info ''Mods directory does not exist, will be created'' []])
        else case iterdir fs mods_dir_path of
               Inl e \<Rightarrow> (Inl e, fs, [])
             | Inr items \<Rightarrow>
                 (case clean_items items fs of
                    (fs', out) \<Rightarrow> (Inr (), fs', out @ [ok ''Mods directory cleaned'' []])))"

definition ensure_dir :: "path \<Rightarrow> fsys \<Rightarrow> unit io" where
  "ensure_dir p fs = attempt (mkdir_p fs p) fs"

text \<open>The statements \<^verbatim>\<open>if target.exists(): shutil.rmtree(target)\<close> and
  \<^verbatim>\<open>shutil.copytree(src, target)\<close>, which the source writes in five places.\<close>

definition replace_tree :: "path \<Rightarrow> path \<Rightarrow> fsys \<Rightarrow> unit io" where
  "replace_tree src target fs =
     (if path_exists fs target
      then andthen (attempt (rmtree fs target) fs) (\<lambda>u fs1. attempt (copytree fs1 src target) fs1)
      else attempt (copytree fs src target) fs)"

text \<open>\<^verbatim>\<open>copy_item\<close>, as \<^verbatim>\<open>main\<close> calls it (without a progress bar). Nothing is
  caught here.\<close>

definition copy_item :: "path \<Rightarrow> path \<Rightarrow> fsys \<Rightarrow> unit io" where
  "copy_item src dst_dir fs =
     (let target = joinpath dst_dir (path_name src) in
      said [info ''Copying to'' (path_name src # dst_dir)]
        (if is_dir fs src then replace_tree src target fs
         else attempt (copy2 fs src target) fs))"

definition find_subdir_case_insensitive :: "fsys \<Rightarrow> path \<Rightarrow> string \<Rightarrow> exn + path option" where
  "find_subdir_case_insensitive fs parent nm =
     (if \<not> path_exists fs parent then Inr None
      else case iterdir fs parent of
             Inl e \<Rightarrow> Inl e
           | Inr items \<Rightarrow>
               Inr (find (\<lambda>item. is_dir fs item \<and> str_lower (path_name item) = str_lower nm)
                      items))"

text \<open>
  \<^verbatim>\<open>copy_structured_mod\<close> runs the same loop for each of its three roots: \<open>copy_entry\<close>
  is the body of the \<^verbatim>\<open>try\<close>, \<open>copy_entries\<close> the loop with its \<^verbatim>\<open>except\<close>,
  \<open>copy_root\<close> one root (the destination directory is made first for \<^verbatim>\<open>Plugins\<close> and
  \<^verbatim>\<open>UserLibs\<close>, not for \<^verbatim>\<open>Mods\<close>).
\<close>

definition copy_entry :: "path \<Rightarrow> path \<Rightarrow> fsys \<Rightarrow> unit io" where
  "copy_entry item dst fs =
     (if is_file fs item then attempt (copy2 fs item (joinpath dst (path_name item))) fs
      else if is_dir fs item then replace_tree item (joinpath dst (path_name item)) fs
      else (Inr (), fs, []))"

fun copy_entries :: "path list \<Rightarrow> path \<Rightarrow> fsys \<Rightarrow> fsys \<times> event list" where
  "copy_entries [] dst fs = (fs, [])"
| "copy_entries (item # items) dst fs =
     (case copy_entry item dst fs of
        (Inl e, fs1, out) \<Rightarrow>
          (case copy_entries items dst fs1 of
             (fs', out') \<Rightarrow>
               (fs', out @ warn ''Failed to copy'' [path_name item, exn_name e] # out'))
      | (Inr u, fs1, out) \<Rightarrow>
          (case copy_entries items dst fs1 of (fs', out') \<Rightarrow> (fs', out @ out')))"

definition copy_root :: "path \<Rightarrow> string \<Rightarrow> path \<Rightarrow> bool \<Rightarrow> fsys \<Rightarrow> unit io" where
  "copy_root mod_path nm dst create fs =
     (case find_subdir_case_insensitive fs mod_path nm of
        Inl e \<Rightarrow> (Inl e, fs, [])
      | Inr None \<Rightarrow> (Inr (), fs, [])
      | Inr (Some subdir) \<Rightarrow>
          andthen (if create then attempt (mkdir_p fs dst) fs else (Inr (), fs, []))
            (\<lambda>u fs1. case iterdir fs1 subdir of
                        Inl e \<Rightarrow> (Inl e, fs1, [])
                      | Inr items \<Rightarrow>
                          (case copy_entries items dst fs1 of
                             (fs', out) \<Rightarrow> (Inr (), fs', out))))"

definition copy_structured_mod :: "path \<Rightarrow> path \<Rightarrow> fsys \<Rightarrow> unit io" where
  "copy_structured_mod mod_path dst_mods_dir fs =
     (if \<not> path_exists fs mod_path then (Inr (), fs, [warn ''Mod not found'' mod_path])
      else
        said [info ''Copying structure'' [path_name mod_path]]
          (andthen (copy_root mod_path ''Mods'' dst_mods_dir False fs)
             (\<lambda>u fs1.
           andthen (copy_root mod_path ''Plugins''
                      (joinpath (path_parent dst_mods_dir) ''Plugins'') True fs1)
             (\<lambda>u fs2.
           copy_root mod_path ''UserLibs''
             (joinpath (path_parent dst_mods_dir) ''UserLibs'') True fs2))))"

text \<open>The two tests of \<^verbatim>\<open>copy_mod_item\<close> on a directory: whether it has one of the
  three roots (\<^verbatim>\<open>any\<close> stops at the first it finds), and whether an entry of its
  \<^verbatim>\<open>Mods\<close> root is already at the destination.\<close>

fun any_subdir :: "fsys \<Rightarrow> path \<Rightarrow> string list \<Rightarrow> exn + bool" where
  "any_subdir fs p [] = Inr False"
| "any_subdir fs p (n # ns) =
     (case find_subdir_case_insensitive fs p n of
        Inl e \<Rightarrow> Inl e
      | Inr (Some d) \<Rightarrow> Inr True
      | Inr None \<Rightarrow> any_subdir fs p ns)"

definition has_structure :: "fsys \<Rightarrow> path \<Rightarrow> exn + bool" where
  "has_structure fs mod_path = any_subdir fs mod_path [''Mods'', ''Plugins'', ''UserLibs'']"

definition has_existing :: "fsys \<Rightarrow> path \<Rightarrow> path \<Rightarrow> exn + bool" where
  "has_existing fs mod_path dst_dir =
     (case find_subdir_case_insensitive fs mod_path ''Mods'' of
        Inl e \<Rightarrow> Inl e
      | Inr None \<Rightarrow> Inr False
      | Inr (Some mods_subdir) \<Rightarrow>
          (case iterdir fs mods_subdir of
             Inl e \<Rightarrow> Inl e
           | Inr items \<Rightarrow>
               Inr (list_ex (\<lambda>item. path_exists fs (joinpath dst_dir (path_name item))) items)))"

text \<open>The three ways \<^verbatim>\<open>copy_mod_item\<close> copies: a single file, a structured mod, a flat
  folder. In the first and the last an exception of the copy is a warning and the result
  \<^verbatim>\<open>False\<close>.\<close>

definition copy_mod_file :: "path \<Rightarrow> path \<Rightarrow> bool \<Rightarrow> fsys \<Rightarrow> bool io" where
  "copy_mod_file mod_path dst_dir skip_if_exists fs =
     (let target = joinpath dst_dir (path_name mod_path) in
      if skip_if_exists \<and> path_exists fs target
      then (Inr False, fs, [info ''Skipping (already exists)'' [path_name mod_path]])
      else
        said [info ''Copying mod file'' [path_name mod_path]]
          (case copy2 fs mod_path target of
             Inr fs' \<Rightarrow> (Inr True, fs', [])
           | Inl e \<Rightarrow>
               (Inr False, fs, [warn ''Failed to copy'' [path_name mod_path, exn_name e]])))"

definition copy_mod_structured :: "path \<Rightarrow> path \<Rightarrow> bool \<Rightarrow> fsys \<Rightarrow> bool io" where
  "copy_mod_structured mod_path dst_dir skip_if_exists fs =
     (case (if skip_if_exists then has_existing fs mod_path dst_dir else Inr False) of
        Inl e \<Rightarrow> (Inl e, fs, [])
      | Inr True \<Rightarrow> (Inr False, fs, [info ''Skipping (already exists)'' [path_name mod_path]])
      | Inr False \<Rightarrow>
          said [info ''Copying structured mod'' [path_name mod_path]]
            (andthen (copy_structured_mod mod_path dst_dir fs) (\<lambda>u fs'. (Inr True, fs', []))))"

definition copy_mod_folder :: "path \<Rightarrow> path \<Rightarrow> bool \<Rightarrow> fsys \<Rightarrow> bool io" where
  "copy_mod_folder mod_path dst_dir skip_if_exists fs =
     (let target = joinpath dst_dir (path_name mod_path) in
      if skip_if_exists \<and> path_exists fs target
      then (Inr False, fs, [info ''Skipping (already exists)'' [path_name mod_path]])
      else
        said [info ''Copying mod folder'' [path_name mod_path]]
          (case replace_tree mod_path target fs of
             (Inr u, fs', out) \<Rightarrow> (Inr True, fs', out)
           | (Inl e, fs', out) \<Rightarrow>
               (Inr False, fs',
                out @ [warn ''Failed to copy'' [path_name mod_path, exn_name e]])))"

definition copy_mod_item :: "path \<Rightarrow> path \<Rightarrow> bool \<Rightarrow> bool \<Rightarrow> fsys \<Rightarrow> bool io" where
  "copy_mod_item mod_path dst_dir skip_if_exists show_timestamp fs =
     (if \<not> path_exists fs mod_path then (Inr False, fs, [warn ''Mod not found'' mod_path])
      else
        said (if show_timestamp \<and> is_file fs mod_path then [info ''Modified'' []] else [])
          (if is_file fs mod_path then copy_mod_file mod_path dst_dir skip_if_exists fs
           else case has_structure fs mod_path of
                  Inl e \<Rightarrow> (Inl e, fs, [])
                | Inr True \<Rightarrow> copy_mod_structured mod_path dst_dir skip_if_exists fs
                | Inr False \<Rightarrow> copy_mod_folder mod_path dst_dir skip_if_exists fs))"

section \<open>The three families of add-ons\<close>

text \<open>\<^verbatim>\<open>copy_user_mods\<close>: the first loop keeps the entries that exist, the second
  copies them.\<close>

definition user_mod_path :: "path \<Rightarrow> string \<Rightarrow> path" where
  "user_mod_path base mod_entry =
     (if \<not> is_absolute (Path mod_entry) then join_py base (Path mod_entry)
      else join_py [] (Path mod_entry))"

fun valid_mods :: "path \<Rightarrow> string list \<Rightarrow> fsys \<Rightarrow> path list \<times> event list" where
  "valid_mods base [] fs = ([], [])"
| "valid_mods base (mod_entry # rest) fs =
     (let mod_path = user_mod_path base mod_entry in
      case valid_mods base rest fs of
        (ps, out) \<Rightarrow>
          if \<not> path_exists fs mod_path then (ps, warn ''Mod not found'' mod_path # out)
          else (mod_path # ps, out))"

fun copy_mods_loop :: "path list \<Rightarrow> path \<Rightarrow> bool \<Rightarrow> bool \<Rightarrow> nat \<Rightarrow> fsys \<Rightarrow> nat io" where
  "copy_mods_loop [] mods_dir_path force_copy show_timestamps copied_count fs =
     (Inr copied_count, fs, [])"
| "copy_mods_loop (mod_path # rest) mods_dir_path force_copy show_timestamps copied_count fs =
     andthen (copy_mod_item mod_path mods_dir_path (\<not> force_copy) show_timestamps fs)
       (\<lambda>b. copy_mods_loop rest mods_dir_path force_copy show_timestamps
               (if b then copied_count + 1 else copied_count))"

definition copy_user_mods ::
  "string list \<Rightarrow> path \<Rightarrow> path \<Rightarrow> bool \<Rightarrow> bool \<Rightarrow> fsys \<Rightarrow> nat io" where
  "copy_user_mods mods base mods_dir_path force_copy show_timestamps fs =
     (if mods = [] then (Inr 0, fs, [])
      else case valid_mods base mods fs of
             (valid, out) \<Rightarrow>
               said (step ''Copying requested mods'' [] # out)
                 (copy_mods_loop valid mods_dir_path force_copy show_timestamps 0 fs))"

definition copy_starter :: "path \<Rightarrow> path \<Rightarrow> bool \<Rightarrow> nat \<Rightarrow> fsys \<Rightarrow> nat io" where
  "copy_starter starter_src mods_dir_path force_copy count fs =
     (let starter_dst = joinpath (path_parent mods_dir_path) (path_name starter_src) in
      if \<not> path_exists fs starter_dst \<or> force_copy then
        (case copy2 fs starter_src starter_dst of
           Inr fs' \<Rightarrow> (Inr (count + 1), fs', [ok ''Multiplayer starter copied'' []])
         | Inl e \<Rightarrow>
             (Inr count, fs, [warn ''Failed to copy multiplayer starter'' [exn_name e]]))
      else (Inr count, fs, [ok ''Multiplayer starter already present'' []]))"

definition copy_multiplayer_mods ::
  "path \<Rightarrow> string \<Rightarrow> string \<Rightarrow> path \<Rightarrow> bool \<Rightarrow> fsys \<Rightarrow> nat io" where
  "copy_multiplayer_mods wd mp_mod_arg mp_starter_arg mods_dir_path force_copy fs =
     (let mp_mod_path = resolve wd (Path mp_mod_arg);
          starter_src = resolve wd (Path mp_starter_arg) in
      said [step ''Copying multiplayer extras'' []]
        (andthen
           (if \<not> path_exists fs mp_mod_path
            then (Inr 0, fs, [warn ''Multiplayer mod not found'' [mp_mod_arg]])
            else andthen (copy_mod_item mp_mod_path mods_dir_path (\<not> force_copy) False fs)
                   (\<lambda>b fs'. if b then (Inr 1, fs', [ok ''Multiplayer mod copied'' []])
                            else (Inr 0, fs', [ok ''Multiplayer mod already present'' []])))
           (\<lambda>count fs1.
              if \<not> path_exists fs1 starter_src
              then (Inr count, fs1, [warn ''Multiplayer starter not found'' [mp_starter_arg]])
              else copy_starter starter_src mods_dir_path force_copy count fs1)))"

definition copy_library_mod ::
  "path \<Rightarrow> string \<Rightarrow> string option \<Rightarrow> path \<Rightarrow> bool \<Rightarrow> nat \<Rightarrow> fsys \<Rightarrow> nat io" where
  "copy_library_mod wd title lib_path mods_dir_path force_copy count fs =
     (if truthy lib_path then
        said [step title []]
          (andthen (copy_mod_item (resolve wd (Path (the lib_path))) mods_dir_path
                      (\<not> force_copy) False fs)
             (\<lambda>b fs'. (Inr (if b then count + 1 else count), fs', [])))
      else (Inr count, fs, []))"

definition copy_library_mods ::
  "path \<Rightarrow> string option \<Rightarrow> string option \<Rightarrow> path \<Rightarrow> bool \<Rightarrow> fsys \<Rightarrow> nat io" where
  "copy_library_mods wd s1api unity_explorer mods_dir_path force_copy fs =
     andthen (copy_library_mod wd ''Copying S1API'' s1api mods_dir_path force_copy 0 fs)
       (\<lambda>count. copy_library_mod wd ''Copying UnityExplorer'' unity_explorer
                  mods_dir_path force_copy count)"

section \<open>The world and its processes\<close>

text \<open>
  The world is the file system, the trace of the events so far, and the clock: what
  \<^verbatim>\<open>time.time()\<close> returns when it is read. The clock advances in \<^verbatim>\<open>time.sleep\<close>, by
  the time asked for, and while the program waits for a command it runs or starts the
  spinner, by a time that the environment gives and that is not negative. The environment
  is what the operating system answers: whether the program runs on Windows, the working
  directory, what \<^verbatim>\<open>which wineserver\<close> prints, how two floating-point numbers add
  (\<open>fadd\<close>: the sum \<^verbatim>\<open>time.time() + wait_seconds + 2.0\<close> is rounded twice), what
  \<^verbatim>\<open>tasklist\<close> prints for a name at a time, the processes that \<^verbatim>\<open>pgrep\<close> sees at a
  time (each with its process number and its command line; the program itself is one of
  them, \<^verbatim>\<open>pgrep\<close> is not), and how the commands match a name: \<open>matches\<close> is the test
  of \<^verbatim>\<open>pgrep -f\<close> and \<^verbatim>\<open>pkill -f\<close> for a pattern and a command line, and of
  \<^verbatim>\<open>taskkill /IM\<close> for a name and an image name; \<open>own\<close> is what they see of the program
  itself, its command line or its image name.

  \<^verbatim>\<open>pkill -f\<close> and \<^verbatim>\<open>taskkill\<close> signal every process that matches, apart from
  themselves: when the program itself matches, it is terminated there, which is the
  outcome \<open>Terminated\<close>. The commands are assumed to be installed, and the numbers to be
  finite.
\<close>

record world =
  files :: fsys
  trace :: "event list"
  clock :: real

record env =
  is_windows :: bool
  cwd :: path
  which_wineserver :: "string option"
  fadd :: "real \<Rightarrow> real \<Rightarrow> real"
  took :: "real \<Rightarrow> real"
  tasklist :: "string \<Rightarrow> real \<Rightarrow> string"
  processes :: "real \<Rightarrow> (string \<times> string) list"
  matches :: "string \<Rightarrow> string \<Rightarrow> bool"
  own :: string

type_synonym 'a outcome = "(exn + 'a) \<times> world"

definition emit :: "event \<Rightarrow> world \<Rightarrow> world" where
  "emit e w = w\<lparr>trace := trace w @ [e]\<rparr>"

definition sleep :: "real \<Rightarrow> world \<Rightarrow> world" where
  "sleep d w = emit (Sleep d) (w\<lparr>clock := clock w + d\<rparr>)"

text \<open>The time that passes while the program waits for something outside it, and
  \<^verbatim>\<open>subprocess.run\<close>, which waits for the command to end.\<close>

definition elapse :: "env \<Rightarrow> world \<Rightarrow> world" where
  "elapse ev w = w\<lparr>clock := clock w + \<bar>took ev (clock w)\<bar>\<rparr>"

definition run :: "env \<Rightarrow> string list \<Rightarrow> (string \<times> string) list \<Rightarrow> world \<Rightarrow> world" where
  "run ev cmd overlay w = elapse ev (emit (Run cmd overlay) w)"

definition perform :: "(fsys \<Rightarrow> 'a io) \<Rightarrow> world \<Rightarrow> 'a outcome" where
  "perform m w =
     (case m (files w) of (r, fs, out) \<Rightarrow> (r, w\<lparr>files := fs, trace := trace w @ out\<rparr>))"

definition next_stage :: "'a outcome \<Rightarrow> ('a \<Rightarrow> world \<Rightarrow> 'b outcome) \<Rightarrow> 'b outcome" where
  "next_stage r f = (case r of (Inl e, w) \<Rightarrow> (Inl e, w) | (Inr x, w) \<Rightarrow> f x w)"

text \<open>
  \<^verbatim>\<open>is_running\<close>. On Windows the name is looked for, in lower case, in what
  \<^verbatim>\<open>tasklist\<close> prints. Elsewhere \<^verbatim>\<open>pgrep -a -f\<close> prints a line with the number and
  the command line of every process that matches, and returns 0 when there is one; the
  name is then looked for in what was printed.
\<close>

definition pgrep_lines :: "env \<Rightarrow> string \<Rightarrow> real \<Rightarrow> (string \<times> string) list" where
  "pgrep_lines ev exe_name t = filter (\<lambda>(pid, c). matches ev exe_name c) (processes ev t)"

definition pgrep_stdout :: "(string \<times> string) list \<Rightarrow> string" where
  "pgrep_stdout ls = concat (map (\<lambda>(pid, c). pid @ '' '' @ c @ [CHR 0x0A]) ls)"

definition is_running :: "env \<Rightarrow> string \<Rightarrow> world \<Rightarrow> bool \<times> world" where
  "is_running ev exe_name w =
     (if is_windows ev
      then (sublist (str_lower exe_name) (str_lower (tasklist ev exe_name (clock w))),
            run ev [''tasklist'', ''/FI'', ''IMAGENAME eq '' @ exe_name] [] w)
      else (pgrep_lines ev exe_name (clock w) \<noteq> [] \<and>
              sublist exe_name (pgrep_stdout (pgrep_lines ev exe_name (clock w))),
            run ev [''pgrep'', ''-a'', ''-f'', exe_name] [] w))"

text \<open>The loop of \<^verbatim>\<open>wait_for_exit\<close>. It ends: every turn sleeps a fifth of a second,
  and the deadline does not move.\<close>

function wait_loop :: "env \<Rightarrow> string \<Rightarrow> real \<Rightarrow> world \<Rightarrow> world" where
  "wait_loop ev exe_name deadline w =
     (if clock w < deadline then
        (case is_running ev exe_name w of
           (running, w') \<Rightarrow>
             if \<not> running then emit (ok ''stopped'' [exe_name]) w'
             else wait_loop ev exe_name deadline (sleep 0.2 w'))
      else emit (warn ''may still be running'' [exe_name]) w)"
  by pat_completeness auto
termination
proof (relation "measure (\<lambda>(ev, exe_name, deadline, w). nat \<lceil>(deadline - clock w) * 5\<rceil>)")
  show "wf (measure (\<lambda>(ev, exe_name, deadline, w). nat \<lceil>(deadline - clock w) * 5\<rceil>))"
    by simp
next
  fix ev :: env and exe_name :: string and deadline :: real and w x :: world and xa y
  assume lt: "clock w < deadline" and r: "(xa, y) = is_running ev exe_name w"
  from r have "y = snd (is_running ev exe_name w)" by (metis snd_conv)
  then have c: "clock w \<le> clock y"
    by (simp add: is_running_def run_def elapse_def emit_def)
  then have "(deadline - clock (sleep 0.2 y)) * 5 \<le> (deadline - clock w) * 5 - 1"
    by (simp add: sleep_def emit_def)
  then have "\<lceil>(deadline - clock (sleep 0.2 y)) * 5\<rceil> \<le> \<lceil>(deadline - clock w) * 5 - 1\<rceil>"
    by (rule ceiling_mono)
  also have "\<dots> = \<lceil>(deadline - clock w) * 5\<rceil> - 1" by (rule ceiling_diff_one)
  finally have "\<lceil>(deadline - clock (sleep 0.2 y)) * 5\<rceil> < \<lceil>(deadline - clock w) * 5\<rceil>" by simp
  moreover from lt have "0 < \<lceil>(deadline - clock w) * 5\<rceil>" by simp
  ultimately
  show "((ev, exe_name, deadline, sleep 0.2 y), (ev, exe_name, deadline, w))
          \<in> measure (\<lambda>(ev, exe_name, deadline, w). nat \<lceil>(deadline - clock w) * 5\<rceil>)"
    by simp
qed

declare wait_loop.simps [simp del]

text \<open>The world at the next test of the loop, after a poll that detected the process
  and the sleep that follows it.\<close>

definition next_poll :: "env \<Rightarrow> string \<Rightarrow> world \<Rightarrow> world" where
  "next_poll ev exe_name w = sleep 0.2 (snd (is_running ev exe_name w))"

text \<open>\<^verbatim>\<open>wait_for_exit\<close>: the deadline is computed once, from a first reading of the
  clock; the loop reads the clock anew, after the spinner has started.\<close>

definition wait_for_exit ::
  "env \<Rightarrow> string \<Rightarrow> real \<Rightarrow> bool \<Rightarrow> string option \<Rightarrow> world \<Rightarrow> world" where
  "wait_for_exit ev exe_name wait use_wine prefix_arg w =
     wait_loop ev exe_name (fadd ev (fadd ev (clock w) wait) 2) (elapse ev w)"

fun extend :: "pypath \<Rightarrow> string list \<Rightarrow> pypath" where
  "extend (Absolute p) ns = Absolute (p @ ns)"
| "extend (Relative p) ns = Relative (p @ ns)"

definition find_wineserver :: "env \<Rightarrow> string option \<Rightarrow> world \<Rightarrow> string option \<times> world" where
  "find_wineserver ev prefix_arg w =
     (if truthy prefix_arg \<and>
         path_exists (files w)
           (resolve (cwd ev) (extend (Path (the prefix_arg)) [''dist'', ''bin'', ''wineserver'']))
      then (Some (path_str (extend (Path (the prefix_arg)) [''dist'', ''bin'', ''wineserver''])), w)
      else (if truthy (which_wineserver ev) then which_wineserver ev else None,
            run ev [''which'', ''wineserver''] [] w))"

text \<open>
  \<^verbatim>\<open>kill_processes\<close>. \<open>terminate\<close> is what comes before the wait: the commands that
  are run. When the last of them, \<^verbatim>\<open>taskkill\<close> or \<^verbatim>\<open>pkill -f\<close>, matches the program
  itself, the program ends there and the wait is not reached.
\<close>

definition terminate :: "env \<Rightarrow> string \<Rightarrow> string option \<Rightarrow> world \<Rightarrow> world" where
  "terminate ev exe_name prefix_arg w0 =
     (let w = emit (step ''Terminating'' [exe_name]) w0 in
      if is_windows ev then run ev [''taskkill'', ''/F'', ''/IM'', exe_name] [] w
      else case find_wineserver ev prefix_arg w of
             (wineserver, w1) \<Rightarrow>
               run ev [''pkill'', ''-f'', exe_name] []
                 (if truthy wineserver
                  then sleep 0.5
                         (run ev [the wineserver, ''-k'']
                            (if truthy prefix_arg then [(''WINEPREFIX'', the prefix_arg)] else [])
                            w1)
                  else w1))"

definition kill_processes ::
  "env \<Rightarrow> string \<Rightarrow> real \<Rightarrow> bool \<Rightarrow> string option \<Rightarrow> world \<Rightarrow> unit outcome" where
  "kill_processes ev exe_name wait use_wine prefix_arg w0 =
     (if matches ev exe_name (own ev) then (Inl Terminated, terminate ev exe_name prefix_arg w0)
      else (Inr (), wait_for_exit ev exe_name wait use_wine prefix_arg
                      (terminate ev exe_name prefix_arg w0)))"

definition launch_game ::
  "path \<Rightarrow> string list \<Rightarrow> bool \<Rightarrow> string \<Rightarrow> string option \<Rightarrow> path \<Rightarrow> world \<Rightarrow> world" where
  "launch_game exe args use_wine binary prefix_arg working_dir w =
     (let cmd = (if use_wine then binary # path_str (Absolute exe) # args
                 else path_str (Absolute exe) # args);
          overlay = (if use_wine
                     then (if truthy prefix_arg then [(''WINEPREFIX'', the prefix_arg)] else [])
                          @ [(''WINEDLLOVERRIDES'', ''version=n,b'')]
                     else [])
      in emit (Popen cmd working_dir overlay) (emit (step ''Launching game'' cmd) w))"

section \<open>The pipeline\<close>

record config =
  target :: string
  mods_dir :: string
  exe_path :: string
  project_dir :: string
  wait_seconds :: real
  launch_delay :: real
  mod_list :: "string list"
  mp_mod :: "string option"
  mp_starter :: "string option"
  s1api_path :: "string option"
  unity_explorer_path :: "string option"
  debug :: bool
  clean :: bool
  no_launch :: bool
  force_copy :: bool
  show_timestamps :: bool
  wine_binary :: string
  wine_prefix :: "string option"

text \<open>
  \<^verbatim>\<open>main\<close> in parts, in the order of the source: the validation of the inputs
  (\<open>main\<close> itself, with \<open>mp_pairing_error\<close> and \<open>check_wine\<close>), the three families of
  add-ons (\<open>copy_addons\<close>), the stages from \<^verbatim>\<open>ensure_dir\<close> to the copy of the built
  mod (\<open>deploy\<close>, which returns \<^verbatim>\<open>total_copied\<close>), and the launch with the summary
  (\<open>finish\<close>). \<^verbatim>\<open>raise typer.Exit(code=1)\<close> is the exception \<open>Exit 1\<close>; an
  exception that leaves \<open>main\<close> ends the program with a status that is not zero.
\<close>

definition check_wine :: "env \<Rightarrow> config \<Rightarrow> world \<Rightarrow> unit outcome" where
  "check_wine ev cfg w0 =
     (if \<not> is_windows ev then
        (let wine_type = (if sublist ''proton'' (str_lower (wine_binary cfg))
                          then ''Proton'' else ''Wine'');
             w = emit (info ''Prefix'' [if truthy (wine_prefix cfg) then the (wine_prefix cfg)
                                        else ''(default)''])
                   (emit (info ''Binary'' [wine_binary cfg])
                      (emit (info ''Using configuration'' [wine_type]) w0))
         in if \<not> path_exists (files w) (resolve (cwd ev) (Path (wine_binary cfg)))
            then (Inl (Exit 1), emit (error ''binary not found'' [wine_type, wine_binary cfg]) w)
            else (Inr (), w))
      else (Inr (), w0))"

definition copy_addons :: "path \<Rightarrow> config \<Rightarrow> fsys \<Rightarrow> nat io" where
  "copy_addons wd cfg fs =
     (let base = resolve wd (Path (project_dir cfg));
          mods_dir_path = resolve wd (Path (mods_dir cfg));
          multiplayer = (truthy (mp_mod cfg) \<and> truthy (mp_starter cfg)) in
      andthen (copy_user_mods (mod_list cfg) base mods_dir_path (force_copy cfg)
                 (show_timestamps cfg) fs)
        (\<lambda>n1 fs1.
      andthen (if multiplayer
               then copy_multiplayer_mods wd (the (mp_mod cfg)) (the (mp_starter cfg))
                      mods_dir_path (force_copy cfg) fs1
               else (Inr 0, fs1, []))
        (\<lambda>n2 fs2.
      andthen (copy_library_mods wd (s1api_path cfg) (unity_explorer_path cfg)
                 mods_dir_path (force_copy cfg) fs2)
        (\<lambda>n3 fs3. (Inr (n1 + n2 + n3), fs3, [])))))"

definition deploy :: "env \<Rightarrow> config \<Rightarrow> world \<Rightarrow> nat outcome" where
  "deploy ev cfg w =
     (let mods_dir_path = resolve (cwd ev) (Path (mods_dir cfg));
          target_path = resolve (cwd ev) (Path (target cfg));
          exe_name = path_name (resolve (cwd ev) (Path (exe_path cfg))) in
      next_stage (perform (ensure_dir mods_dir_path) w)
        (\<lambda>u w1.
      next_stage (kill_processes ev exe_name (wait_seconds cfg) (\<not> is_windows ev)
                    (wine_prefix cfg) w1)
        (\<lambda>u w2.
      next_stage (if clean cfg then perform (clean_mods_dir mods_dir_path) w2
                  else (Inr (), w2))
        (\<lambda>u w3.
      next_stage (perform (copy_addons (cwd ev) cfg) w3)
        (\<lambda>n w4.
      next_stage (perform (copy_item target_path mods_dir_path)
                    (emit (step ''Copying built mod'' []) w4))
        (\<lambda>u w5. (Inr (n + 1), w5)))))))"

definition summary :: "nat \<Rightarrow> world \<Rightarrow> world" where
  "summary total_copied w =
     emit (Say PLAIN ''Post-build completed successfully'' []) (emit (Copied_total total_copied) w)"

definition finish :: "env \<Rightarrow> config \<Rightarrow> nat \<Rightarrow> world \<Rightarrow> world" where
  "finish ev cfg total_copied w0 =
     (let mods_dir_path = resolve (cwd ev) (Path (mods_dir cfg));
          exe_path_obj = resolve (cwd ev) (Path (exe_path cfg));
          multiplayer = (truthy (mp_mod cfg) \<and> truthy (mp_starter cfg)) in
      if no_launch cfg
      then summary total_copied (emit (info ''Skipping game launch (--no-launch)'' []) w0)
      else
        let w = (if launch_delay cfg > 0
                 then sleep (launch_delay cfg) (emit (step ''Waiting before launch'' []) w0)
                 else w0);
            launch_args = (if debug cfg then [''--melonloader.debug''] else [])
        in summary total_copied
             (if \<not> multiplayer
              then launch_game exe_path_obj launch_args (\<not> is_windows ev) (wine_binary cfg)
                     (wine_prefix cfg) (path_parent exe_path_obj) w
              else
                let starter_path = joinpath (path_parent mods_dir_path)
                                     (path_name (join_py [] (Path (the (mp_starter cfg)))))
                in emit (Popen (if is_windows ev
                                then [''cmd'', ''/k'', path_str (Absolute starter_path)] @ launch_args
                                else [path_str (Absolute starter_path)])
                           (path_parent mods_dir_path) [])
                     (emit (step ''Launching multiplayer starter'' []) w)))"

text \<open>The two tests of the multiplayer inputs: the message of the one that fails.\<close>

definition mp_pairing_error :: "config \<Rightarrow> string option" where
  "mp_pairing_error cfg =
     (if truthy (mp_mod cfg) \<and> \<not> truthy (mp_starter cfg)
      then Some ''Multiplayer mod provided but starter missing''
      else if truthy (mp_starter cfg) \<and> \<not> truthy (mp_mod cfg)
      then Some ''Multiplayer starter provided but mod missing''
      else None)"

definition main :: "env \<Rightarrow> config \<Rightarrow> world \<Rightarrow> unit outcome" where
  "main ev cfg w0 =
     (let target_path = resolve (cwd ev) (Path (target cfg)) in
      if \<not> path_exists (files w0) target_path
      then (Inl (Exit 1), emit (error ''Target not found'' target_path) w0)
      else case mp_pairing_error cfg of
             Some m \<Rightarrow> (Inl (Exit 1), emit (error m []) w0)
           | None \<Rightarrow>
               next_stage (check_wine ev cfg w0)
                 (\<lambda>u w1.
               next_stage (deploy ev cfg w1)
                 (\<lambda>total_copied w2. (Inr (), finish ev cfg total_copied w2))))"

text \<open>The exit status of the program, as a shell reports it: 143 for a program that a
  \<^verbatim>\<open>SIGTERM\<close> ended.\<close>

fun exit_status :: "exn + unit \<Rightarrow> int" where
  "exit_status (Inr u) = 0"
| "exit_status (Inl (Exit n)) = n"
| "exit_status (Inl Terminated) = 143"
| "exit_status (Inl e) = 1"

section \<open>What the pipeline does to the files\<close>

text \<open>
  The stages of \<open>deploy\<close> without the termination of the game, as a function of the file
  system alone: what \<open>deploy\<close> does to the files when the termination does not end the
  program. \<open>agrees\<close> says that a run in a world and a run on its files give the same
  result and leave the same files.
\<close>

definition deploy_files :: "path \<Rightarrow> config \<Rightarrow> fsys \<Rightarrow> nat io" where
  "deploy_files wd cfg fs =
     (let mods_dir_path = resolve wd (Path (mods_dir cfg));
          target_path = resolve wd (Path (target cfg)) in
      andthen (ensure_dir mods_dir_path fs)
        (\<lambda>u fs1.
      andthen (if clean cfg then clean_mods_dir mods_dir_path fs1 else (Inr (), fs1, []))
        (\<lambda>u fs3.
      andthen (copy_addons wd cfg fs3)
        (\<lambda>n fs4.
      andthen (said [step ''Copying built mod'' []] (copy_item target_path mods_dir_path fs4))
        (\<lambda>u fs5. (Inr (n + 1), fs5, []))))))"

definition agrees :: "'a outcome \<Rightarrow> 'a io \<Rightarrow> bool" where
  "agrees r x = (fst r = fst x \<and> files (snd r) = fst (snd x))"

definition touches :: "path \<Rightarrow> fsys \<Rightarrow> fsys \<Rightarrow> bool" where
  "touches t fs fs' =
     (\<forall>q. \<not> prefix t q \<longrightarrow>
        (\<not> prefix q (butlast t) \<longrightarrow> fs' q = fs q) \<and>
        (is_dir fs q \<longrightarrow> is_dir fs' q) \<and>
        (is_file fs' q = is_file fs q))"

definition outside :: "path \<Rightarrow> fsys \<Rightarrow> fsys \<Rightarrow> bool" where
  "outside d fs fs' =
     (\<forall>q. (\<not> prefix d q \<and> \<not> prefix q d \<longrightarrow> fs' q = fs q) \<and>
          (\<not> strict_prefix d q \<longrightarrow>
             (is_dir fs q \<longrightarrow> is_dir fs' q) \<and> is_file fs' q = is_file fs q))"

definition keeps :: "path \<Rightarrow> fsys \<Rightarrow> fsys \<Rightarrow> bool" where
  "keeps d fs fs' =
     (is_dir fs d \<longrightarrow>
        is_dir fs' d \<and> (\<forall>m. path_exists fs (d @ [m]) \<longrightarrow> path_exists fs' (d @ [m])))"

definition evolves :: "path \<Rightarrow> string \<Rightarrow> fsys \<Rightarrow> fsys \<Rightarrow> bool" where
  "evolves g d fs fs' =
     ((\<forall>q. \<not> prefix g q \<and> \<not> prefix q g \<longrightarrow> fs' q = fs q) \<and>
      keeps (g @ [d]) fs fs' \<and> keeps g fs fs')"

definition already_present :: "fsys \<Rightarrow> path \<Rightarrow> path \<Rightarrow> bool" where
  "already_present fs mod_path dst_dir =
     (if is_file fs mod_path \<or> has_structure fs mod_path = Inr False
      then path_exists fs (joinpath dst_dir (path_name mod_path))
      else has_existing fs mod_path dst_dir = Inr True)"

definition quiet :: "path \<Rightarrow> path \<Rightarrow> fsys \<Rightarrow> bool" where
  "quiet mod_path dst_dir fs = (\<not> path_exists fs mod_path \<or> already_present fs mod_path dst_dir)"

definition mods_root_filled :: "fsys \<Rightarrow> path \<Rightarrow> bool" where
  "mods_root_filled fs mod_path =
     (\<exists>sub items. find_subdir_case_insensitive fs mod_path ''Mods'' = Inr (Some sub) \<and>
        iterdir fs sub = Inr items \<and> (\<exists>item\<in>set items. path_exists fs item))"

definition starter_quiet :: "path \<Rightarrow> path \<Rightarrow> fsys \<Rightarrow> bool" where
  "starter_quiet starter_src g fs =
     (\<not> path_exists fs starter_src \<or> path_exists fs (g @ [path_name starter_src]) \<or>
      \<not> is_file fs starter_src)"

definition addon_sources :: "path \<Rightarrow> config \<Rightarrow> path list" where
  "addon_sources wd cfg =
     map (user_mod_path (resolve wd (Path (project_dir cfg)))) (mod_list cfg) @
     (if truthy (mp_mod cfg) \<and> truthy (mp_starter cfg)
      then [resolve wd (Path (the (mp_mod cfg)))] else []) @
     (if truthy (s1api_path cfg) then [resolve wd (Path (the (s1api_path cfg)))] else []) @
     (if truthy (unity_explorer_path cfg)
      then [resolve wd (Path (the (unity_explorer_path cfg)))] else [])"

definition sibling_kept :: "path \<Rightarrow> string \<Rightarrow> fsys \<Rightarrow> fsys \<Rightarrow> bool" where
  "sibling_kept g x fs fs' =
     ((\<forall>q. \<not> prefix g q \<and> \<not> prefix q g \<longrightarrow> fs' q = fs q) \<and>
      is_dir fs' (g @ [x]) = is_dir fs (g @ [x]))"

section \<open>An example installation\<close>

text \<open>
  The file system of the examples: a structured add-on \<^verbatim>\<open>/A\<close> with the roots
  \<^verbatim>\<open>Mods\<close> (holding \<^verbatim>\<open>Foo.dll\<close>) and \<^verbatim>\<open>Plugins\<close> (holding \<^verbatim>\<open>Bar.dll\<close>), the
  project \<^verbatim>\<open>/proj\<close> with the built mod and one more file, and the game in \<^verbatim>\<open>/D\<close>
  with its empty mods directory \<^verbatim>\<open>/D/Mods\<close>.
\<close>

definition demo_fs :: fsys where
  "demo_fs = (\<lambda>p. None)
     ([] \<mapsto> Dir [''A'', ''D'', ''proj''],
      [''A''] \<mapsto> Dir [''Mods'', ''Plugins''],
      [''A'', ''Mods''] \<mapsto> Dir [''Foo.dll''],
      [''A'', ''Mods'', ''Foo.dll''] \<mapsto> File ''foo'',
      [''A'', ''Plugins''] \<mapsto> Dir [''Bar.dll''],
      [''A'', ''Plugins'', ''Bar.dll''] \<mapsto> File ''bar'',
      [''proj''] \<mapsto> Dir [''MyMod.dll'', ''Extra.dll'', ''wine''],
      [''proj'', ''MyMod.dll''] \<mapsto> File ''mymod'',
      [''proj'', ''Extra.dll''] \<mapsto> File ''extra'',
      [''proj'', ''wine''] \<mapsto> File ''wine'',
      [''D''] \<mapsto> Dir [''Mods''],
      [''D'', ''Mods''] \<mapsto> Dir [])"

definition demo_world :: world where
  "demo_world = \<lparr>files = demo_fs, trace = [], clock = 0\<rparr>"

text \<open>Two environments. In \<open>demo_env\<close>, on Windows, the game does not run and the
  program is \<^verbatim>\<open>python.exe\<close>. In \<open>linux_env\<close> the command line of the program holds the
  path of the executable, as it does when the program is started as its usage says, a
  game runs under Wine all the time, and a name matches the command lines that hold it.\<close>

definition demo_env :: env where
  "demo_env = \<lparr>is_windows = True, cwd = [''proj''], which_wineserver = None,
                fadd = (+), took = (\<lambda>t. 0),
                tasklist = (\<lambda>n t. ''INFO: No tasks are running which match the specified criteria.''),
                processes = (\<lambda>t. []),
                matches = (\<lambda>n c. str_lower n = str_lower c), own = ''python.exe''\<rparr>"

definition linux_env :: env where
  "linux_env = \<lparr>is_windows = False, cwd = [''proj''], which_wineserver = None,
                 fadd = (+), took = (\<lambda>t. 0), tasklist = (\<lambda>n t. []),
                 processes = (\<lambda>t. [(''4242'', ''python postbuild.py MyMod.dll /D/Mods /D/S1.exe''),
                                    (''77'', ''wine /D/S1.exe'')]),
                 matches = sublist,
                 own = ''python postbuild.py MyMod.dll /D/Mods /D/S1.exe''\<rparr>"

definition demo_cfg :: config where
  "demo_cfg = \<lparr>target = ''/proj/MyMod.dll'', mods_dir = ''/D/Mods'', exe_path = ''/D/S1.exe'',
     project_dir = ''/proj'', wait_seconds = 1, launch_delay = 0,
     mod_list = [''Extra.dll'', ''/A'', ''nope''],
     mp_mod = None, mp_starter = None, s1api_path = None, unity_explorer_path = None,
     debug = False, clean = False, no_launch = False, force_copy = False,
     show_timestamps = False, wine_binary = ''/proj/wine'', wine_prefix = None\<rparr>"

text \<open>A directory \<^verbatim>\<open>/B\<close> that lists a file \<^verbatim>\<open>MODS\<close> before a directory
  \<^verbatim>\<open>mods\<close>, and a directory \<^verbatim>\<open>/C\<close> whose \<^verbatim>\<open>Mods\<close> is a file.\<close>

definition case_fs :: fsys where
  "case_fs = (\<lambda>p. None)
     ([] \<mapsto> Dir [''B'', ''C''],
      [''B''] \<mapsto> Dir [''MODS'', ''mods''],
      [''B'', ''MODS''] \<mapsto> File ''x'',
      [''B'', ''mods''] \<mapsto> Dir [],
      [''C''] \<mapsto> Dir [''Mods''],
      [''C'', ''Mods''] \<mapsto> File ''y'')"

text \<open>An installation where no entry of the structured add-on \<^verbatim>\<open>/S\<close> can be
  copied: its two entries are directories, and files have their names in the game's
  directories.\<close>

definition stuck_fs :: fsys where
  "stuck_fs = (\<lambda>p. None)
     ([] \<mapsto> Dir [''S'', ''D''],
      [''S''] \<mapsto> Dir [''Mods'', ''Plugins''],
      [''S'', ''Mods''] \<mapsto> Dir [''sub''],
      [''S'', ''Mods'', ''sub''] \<mapsto> Dir [],
      [''S'', ''Plugins''] \<mapsto> Dir [''lib''],
      [''S'', ''Plugins'', ''lib''] \<mapsto> Dir [],
      [''D''] \<mapsto> Dir [''Mods'', ''Plugins''],
      [''D'', ''Mods''] \<mapsto> Dir [''sub''],
      [''D'', ''Mods'', ''sub''] \<mapsto> File ''x'',
      [''D'', ''Plugins''] \<mapsto> Dir [''lib''],
      [''D'', ''Plugins'', ''lib''] \<mapsto> File ''y'')"

text \<open>An installation that already has the one file of the structured add-on
  \<^verbatim>\<open>/P\<close>, which has a \<^verbatim>\<open>Plugins\<close> root and no \<^verbatim>\<open>Mods\<close> root.\<close>

definition present_fs :: fsys where
  "present_fs = (\<lambda>p. None)
     ([] \<mapsto> Dir [''P'', ''D''],
      [''P''] \<mapsto> Dir [''Plugins''],
      [''P'', ''Plugins''] \<mapsto> Dir [''Bar.dll''],
      [''P'', ''Plugins'', ''Bar.dll''] \<mapsto> File ''bar'',
      [''D''] \<mapsto> Dir [''Mods'', ''Plugins''],
      [''D'', ''Mods''] \<mapsto> Dir [],
      [''D'', ''Plugins''] \<mapsto> Dir [''Bar.dll''],
      [''D'', ''Plugins'', ''Bar.dll''] \<mapsto> File ''bar'')"

text \<open>An installation where the mods directory has a directory with the name of the
  built mod, which is a file.\<close>

definition nested_fs :: fsys where
  "nested_fs = (\<lambda>p. None)
     ([] \<mapsto> Dir [''proj'', ''D''],
      [''proj''] \<mapsto> Dir [''MyMod.dll''],
      [''proj'', ''MyMod.dll''] \<mapsto> File ''mymod'',
      [''D''] \<mapsto> Dir [''Mods''],
      [''D'', ''Mods''] \<mapsto> Dir [''MyMod.dll''],
      [''D'', ''Mods'', ''MyMod.dll''] \<mapsto> Dir [])"

text \<open>An installation that has an older built mod and an older copy of the directory
  \<^verbatim>\<open>Pack\<close> in its mods directory.\<close>

definition stale_fs :: fsys where
  "stale_fs = (\<lambda>p. None)
     ([] \<mapsto> Dir [''proj'', ''D''],
      [''proj''] \<mapsto> Dir [''MyMod.dll'', ''Extra.dll'', ''Pack''],
      [''proj'', ''MyMod.dll''] \<mapsto> File ''mymod'',
      [''proj'', ''Extra.dll''] \<mapsto> File ''extra'',
      [''proj'', ''Pack''] \<mapsto> Dir [''a.txt''],
      [''proj'', ''Pack'', ''a.txt''] \<mapsto> File ''new'',
      [''D''] \<mapsto> Dir [''Mods''],
      [''D'', ''Mods''] \<mapsto> Dir [''MyMod.dll'', ''Pack''],
      [''D'', ''Mods'', ''MyMod.dll''] \<mapsto> File ''old'',
      [''D'', ''Mods'', ''Pack''] \<mapsto> Dir [''b.txt''],
      [''D'', ''Mods'', ''Pack'', ''b.txt''] \<mapsto> File ''stale'')"

section \<open>Basic facts\<close>

lemma path_name_joinpath [simp]: "n \<noteq> [] \<Longrightarrow> path_name (joinpath d n) = n"
  by (simp add: path_name_def joinpath_def)

lemma path_parent_joinpath [simp]: "n \<noteq> [] \<Longrightarrow> path_parent (joinpath d n) = d"
  by (simp add: path_parent_def joinpath_def)

lemma butlast_joinpath [simp]: "n \<noteq> [] \<Longrightarrow> butlast (joinpath d n) = d"
  by (simp add: joinpath_def)

lemma joinpath_snoc: "n \<noteq> [] \<Longrightarrow> joinpath d n = d @ [n]"
  by (simp add: joinpath_def)

lemma str_lower_roots [simp]:
  "str_lower ''Mods'' = ''mods''" "str_lower ''Plugins'' = ''plugins''"
  "str_lower ''UserLibs'' = ''userlibs''"
  by (simp_all add: str_lower_def lower_char_def)

lemma is_dir_iff: "is_dir fs p \<longleftrightarrow> (\<exists>ns. fs p = Some (Dir ns))"
  by (auto simp: is_dir_def split: option.splits entry.splits)

lemma is_file_iff: "is_file fs p \<longleftrightarrow> (\<exists>c. fs p = Some (File c))"
  by (auto simp: is_file_def split: option.splits entry.splits)

lemma exists_iff: "path_exists fs p \<longleftrightarrow> is_dir fs p \<or> is_file fs p"
  by (auto simp: path_exists_def is_dir_def is_file_def split: option.splits entry.splits)

lemma not_file_and_dir: "is_file fs p \<Longrightarrow> \<not> is_dir fs p"
  by (auto simp: is_dir_def is_file_def split: option.splits entry.splits)

lemma iterdir_Dir:
  "fs p = Some (Dir ns) \<Longrightarrow> iterdir fs p = Inr (map (joinpath p) (filter (\<lambda>n. n \<noteq> []) ns))"
  by (simp add: iterdir_def)

lemma find_Some_set: "find P xs = Some x \<Longrightarrow> x \<in> set xs \<and> P x"
  by (induction xs) (auto split: if_splits)

lemma find_subdir_Dir:
  "fs p = Some (Dir ns) \<Longrightarrow>
     find_subdir_case_insensitive fs p nm =
       Inr (find (\<lambda>item. is_dir fs item \<and> str_lower (path_name item) = str_lower nm)
              (map (joinpath p) (filter (\<lambda>n. n \<noteq> []) ns)))"
  by (simp add: find_subdir_case_insensitive_def iterdir_Dir path_exists_def)

lemma valid_mods_filter:
  "valid_mods base ms fs =
     (filter (path_exists fs) (map (user_mod_path base) ms),
      map (warn ''Mod not found'')
        (filter (\<lambda>p. \<not> path_exists fs p) (map (user_mod_path base) ms)))"
  by (induction ms) (simp_all add: Let_def)

section \<open>The wait for the game to exit\<close>

lemma emit_simps [simp]:
  "files (emit e w) = files w" "clock (emit e w) = clock w" "trace (emit e w) = trace w @ [e]"
  by (simp_all add: emit_def)

lemma sleep_simps [simp]:
  "files (sleep d w) = files w" "clock (sleep d w) = clock w + d"
  "trace (sleep d w) = trace w @ [Sleep d]"
  by (simp_all add: sleep_def)

lemma elapse_simps [simp]:
  "files (elapse ev w) = files w" "clock (elapse ev w) = clock w + \<bar>took ev (clock w)\<bar>"
  "trace (elapse ev w) = trace w"
  by (simp_all add: elapse_def)

lemma run_simps [simp]:
  "files (run ev cmd overlay w) = files w"
  "clock (run ev cmd overlay w) = clock w + \<bar>took ev (clock w)\<bar>"
  "trace (run ev cmd overlay w) = trace w @ [Run cmd overlay]"
  by (simp_all add: run_def)

lemma is_running_simps [simp]:
  "files (snd (is_running ev exe w)) = files w"
  "clock (snd (is_running ev exe w)) = clock w + \<bar>took ev (clock w)\<bar>"
  by (simp_all add: is_running_def)

text \<open>The loop is a number of polls that detect the process, each before the deadline and
  each followed by a sleep; then either a poll before the deadline that does not detect
  it, or a test that finds the deadline come.\<close>

lemma next_poll_clock [simp]:
  "clock (next_poll ev exe w) = clock w + \<bar>took ev (clock w)\<bar> + 0.2"
  "files (next_poll ev exe w) = files w"
  by (simp_all add: next_poll_def)

lemma wait_loop_spec:
  "\<exists>k. (\<forall>j<k. clock ((next_poll ev exe ^^ j) w) < dl \<and>
               fst (is_running ev exe ((next_poll ev exe ^^ j) w))) \<and>
       (clock ((next_poll ev exe ^^ k) w) < dl \<and>
          \<not> fst (is_running ev exe ((next_poll ev exe ^^ k) w)) \<and>
          wait_loop ev exe dl w
            = emit (ok ''stopped'' [exe]) (snd (is_running ev exe ((next_poll ev exe ^^ k) w)))
        \<or> dl \<le> clock ((next_poll ev exe ^^ k) w) \<and>
          wait_loop ev exe dl w
            = emit (warn ''may still be running'' [exe]) ((next_poll ev exe ^^ k) w))"
proof (induction ev exe dl w rule: wait_loop.induct)
  case (1 ev exe dl w)
  show ?case
  proof (cases "clock w < dl")
    case False
    then have "wait_loop ev exe dl w = emit (warn ''may still be running'' [exe]) w"
      by (simp add: wait_loop.simps [of ev exe dl w])
    with False show ?thesis
      by (intro exI [of _ 0]) simp
  next
    case lt: True
    show ?thesis
    proof (cases "fst (is_running ev exe w)")
      case False
      with lt have "wait_loop ev exe dl w = emit (ok ''stopped'' [exe]) (snd (is_running ev exe w))"
        by (cases "is_running ev exe w") (simp add: wait_loop.simps [of ev exe dl w])
      with lt False show ?thesis
        by (intro exI [of _ 0]) simp
    next
      case True
      let ?w1 = "next_poll ev exe w"
      from lt True have eq: "wait_loop ev exe dl w = wait_loop ev exe dl ?w1"
        by (cases "is_running ev exe w") (simp add: wait_loop.simps [of ev exe dl w] next_poll_def)
      have "(fst (is_running ev exe w), snd (is_running ev exe w)) = is_running ev exe w"
        by simp
      from "1.IH" [OF lt this] True
      obtain k where k: "\<forall>j<k. clock ((next_poll ev exe ^^ j) ?w1) < dl \<and>
               fst (is_running ev exe ((next_poll ev exe ^^ j) ?w1))"
        "clock ((next_poll ev exe ^^ k) ?w1) < dl \<and>
          \<not> fst (is_running ev exe ((next_poll ev exe ^^ k) ?w1)) \<and>
          wait_loop ev exe dl ?w1
            = emit (ok ''stopped'' [exe]) (snd (is_running ev exe ((next_poll ev exe ^^ k) ?w1)))
        \<or> dl \<le> clock ((next_poll ev exe ^^ k) ?w1) \<and>
          wait_loop ev exe dl ?w1
            = emit (warn ''may still be running'' [exe]) ((next_poll ev exe ^^ k) ?w1)"
        unfolding next_poll_def by auto
      have shift: "(next_poll ev exe ^^ Suc j) w = (next_poll ev exe ^^ j) ?w1" for j
        by (simp add: funpow_swap1)
      have polls: "\<forall>j<Suc k. clock ((next_poll ev exe ^^ j) w) < dl \<and>
               fst (is_running ev exe ((next_poll ev exe ^^ j) w))"
      proof (intro allI impI)
        fix j assume j: "j < Suc k"
        show "clock ((next_poll ev exe ^^ j) w) < dl \<and>
               fst (is_running ev exe ((next_poll ev exe ^^ j) w))"
        proof (cases j)
          case 0
          with True lt show ?thesis by simp
        next
          case (Suc i)
          with j have "i < k" by simp
          with k(1) show ?thesis unfolding Suc shift by blast
        qed
      qed
      from k(2) polls show ?thesis
        unfolding eq shift [symmetric] by (intro exI [of _ "Suc k"]) blast
    qed
  qed
qed

lemma files_wait_loop [simp]: "files (wait_loop ev exe dl w) = files w"
proof -
  have "files ((next_poll ev exe ^^ k) w) = files w" for k
    by (induction k) simp_all
  with wait_loop_spec [of ev exe w dl] show ?thesis by auto
qed

lemma files_wait_for_exit [simp]: "files (wait_for_exit ev exe wait uw pa w) = files w"
  by (simp add: wait_for_exit_def)

lemma files_terminate [simp]: "files (terminate ev exe pa w) = files w"
  by (simp add: terminate_def Let_def find_wineserver_def split: prod.splits)

lemma files_kill_processes [simp]:
  "files (snd (kill_processes ev exe wait uw pa w)) = files w"
  by (simp add: kill_processes_def)

lemma kill_processes_returns:
  "\<not> matches ev exe (own ev) \<Longrightarrow> fst (kill_processes ev exe wait uw pa w) = Inr ()"
  by (simp add: kill_processes_def)

lemma kill_processes_ends:
  "matches ev exe (own ev) \<Longrightarrow> fst (kill_processes ev exe wait uw pa w) = Inl Terminated"
  by (simp add: kill_processes_def)

section \<open>A run in a world and a run on its files\<close>

lemma agrees_perform: "agrees (perform m w) (m (files w))"
  by (simp add: agrees_def perform_def split: prod.splits)

lemma agrees_next_stage:
  assumes "agrees r x" and "\<And>a w. agrees (f a w) (g a (files w))"
  shows "agrees (next_stage r f) (andthen x g)"
proof (cases r)
  case (Pair res w)
  show ?thesis
  proof (cases x)
    case (fields res' fs out)
    with Pair assms(1) have eq: "res' = res" "files w = fs" by (simp_all add: agrees_def)
    show ?thesis
    proof (cases res)
      case (Inl e)
      with Pair fields eq show ?thesis by (simp add: agrees_def next_stage_def andthen_def)
    next
      case (Inr a)
      from assms(2) [of a w] eq have "agrees (f a w) (g a fs)" by simp
      with Pair fields eq Inr show ?thesis
        by (simp add: agrees_def next_stage_def andthen_def split: prod.splits)
    qed
  qed
qed

lemma agrees_said: "agrees r x \<Longrightarrow> agrees r (said es x)"
  by (simp add: agrees_def said_def split: prod.splits)

lemma agrees_after_kill:
  assumes "\<not> matches ev exe (own ev)"
    and "\<And>w' :: world. files w' = files w \<Longrightarrow> agrees (f () w') x"
  shows "agrees (next_stage (kill_processes ev exe wait uw pa w) f) x"
proof -
  obtain r w' where k: "kill_processes ev exe wait uw pa w = (r, w')" by (metis surj_pair)
  with kill_processes_returns [OF assms(1), of wait uw pa w] files_kill_processes [of ev exe wait uw pa w]
  have "r = Inr ()" "files w' = files w" by simp_all
  with k assms(2) [of w'] show ?thesis by (simp add: next_stage_def)
qed

lemma deploy_agrees:
  assumes "\<not> matches ev (path_name (resolve (cwd ev) (Path (exe_path cfg)))) (own ev)"
  shows "agrees (deploy ev cfg w) (deploy_files (cwd ev) cfg (files w))"
  unfolding deploy_def deploy_files_def Let_def
proof (rule agrees_next_stage)
  show "agrees (perform (ensure_dir (resolve (cwd ev) (Path (mods_dir cfg)))) w)
     (ensure_dir (resolve (cwd ev) (Path (mods_dir cfg))) (files w))"
    by (rule agrees_perform)
next
  fix a w1
  show "agrees
        (next_stage
          (kill_processes ev (path_name (resolve (cwd ev) (Path (exe_path cfg)))) (wait_seconds cfg)
            (\<not> is_windows ev) (wine_prefix cfg) w1)
          (\<lambda>u w2.
              next_stage
               (if clean cfg then perform (clean_mods_dir (resolve (cwd ev) (Path (mods_dir cfg)))) w2
                else (Inr (), w2))
               (\<lambda>u w3.
                   next_stage (perform (copy_addons (cwd ev) cfg) w3)
                    (\<lambda>n w4.
                        next_stage
                         (perform
                           (copy_item (resolve (cwd ev) (Path (target cfg)))
                             (resolve (cwd ev) (Path (mods_dir cfg))))
                           (emit (step ''Copying built mod'' []) w4))
                         (\<lambda>u w5. (Inr (n + 1), w5))))))
        (andthen
          (if clean cfg then clean_mods_dir (resolve (cwd ev) (Path (mods_dir cfg))) (files w1)
           else (Inr (), files w1, []))
          (\<lambda>u fs3.
              andthen (copy_addons (cwd ev) cfg fs3)
               (\<lambda>n fs4.
                   andthen
                    (said [step ''Copying built mod'' []]
                      (copy_item (resolve (cwd ev) (Path (target cfg)))
                        (resolve (cwd ev) (Path (mods_dir cfg))) fs4))
                    (\<lambda>u fs5. (Inr (n + 1), fs5, [])))))"
    using assms
  proof (rule agrees_after_kill)
    fix w' :: world assume same: "files w' = files w1"
    show "agrees
        (next_stage
               (if clean cfg then perform (clean_mods_dir (resolve (cwd ev) (Path (mods_dir cfg)))) w'
                else (Inr (), w'))
               (\<lambda>u w3.
                   next_stage (perform (copy_addons (cwd ev) cfg) w3)
                    (\<lambda>n w4.
                        next_stage
                         (perform
                           (copy_item (resolve (cwd ev) (Path (target cfg)))
                             (resolve (cwd ev) (Path (mods_dir cfg))))
                           (emit (step ''Copying built mod'' []) w4))
                         (\<lambda>u w5. (Inr (n + 1), w5)))))
        (andthen
          (if clean cfg then clean_mods_dir (resolve (cwd ev) (Path (mods_dir cfg))) (files w1)
           else (Inr (), files w1, []))
          (\<lambda>u fs3.
              andthen (copy_addons (cwd ev) cfg fs3)
               (\<lambda>n fs4.
                   andthen
                    (said [step ''Copying built mod'' []]
                      (copy_item (resolve (cwd ev) (Path (target cfg)))
                        (resolve (cwd ev) (Path (mods_dir cfg))) fs4))
                    (\<lambda>u fs5. (Inr (n + 1), fs5, [])))))"
      unfolding same [symmetric]
      by (intro agrees_next_stage agrees_said)
         (simp_all add: agrees_perform agrees_perform [of _ "emit _ _", simplified],
          simp_all add: agrees_def)
  qed
qed

lemma deploy_terminated:
  assumes "matches ev (path_name (resolve (cwd ev) (Path (exe_path cfg)))) (own ev)"
  shows "fst (deploy ev cfg w) \<noteq> Inr n"
    and "files (snd (deploy ev cfg w)) = files w \<or>
         mkdir_p (files w) (resolve (cwd ev) (Path (mods_dir cfg)))
           = Inr (files (snd (deploy ev cfg w)))"
proof -
  let ?D = "resolve (cwd ev) (Path (mods_dir cfg))"
  obtain r w1 where p: "perform (ensure_dir ?D) w = (r, w1)" by (metis surj_pair)
  show "fst (deploy ev cfg w) \<noteq> Inr n"
    using p kill_processes_ends [OF assms, of "wait_seconds cfg" "\<not> is_windows ev" "wine_prefix cfg" w1]
    by (cases r; cases "kill_processes ev (path_name (resolve (cwd ev) (Path (exe_path cfg))))
          (wait_seconds cfg) (\<not> is_windows ev) (wine_prefix cfg) w1")
       (auto simp: deploy_def Let_def next_stage_def)
  show "files (snd (deploy ev cfg w)) = files w \<or>
         mkdir_p (files w) ?D = Inr (files (snd (deploy ev cfg w)))"
  proof (cases "mkdir_p (files w) ?D")
    case (Inl e)
    with p have "r = Inl e" "files w1 = files w"
      by (auto simp: perform_def ensure_dir_def attempt_def)
    with p show ?thesis by (simp add: deploy_def Let_def next_stage_def)
  next
    case (Inr fs1)
    with p have r: "r = Inr ()" "files w1 = fs1"
      by (auto simp: perform_def ensure_dir_def attempt_def)
    obtain r2 w2 where k: "kill_processes ev (path_name (resolve (cwd ev) (Path (exe_path cfg))))
          (wait_seconds cfg) (\<not> is_windows ev) (wine_prefix cfg) w1 = (r2, w2)" by (metis surj_pair)
    from kill_processes_ends [OF assms, of "wait_seconds cfg" "\<not> is_windows ev" "wine_prefix cfg" w1]
      k have r2: "r2 = Inl Terminated" by simp
    from files_kill_processes [of ev "path_name (resolve (cwd ev) (Path (exe_path cfg)))"
        "wait_seconds cfg" "\<not> is_windows ev" "wine_prefix cfg" w1] k r
    have "files w2 = fs1" by simp
    note r2 this
    with p r k Inr show ?thesis by (simp add: deploy_def Let_def next_stage_def)
  qed
qed

lemma touches_refl [simp]: "touches t fs fs"
  by (simp add: touches_def)

lemma touches_trans: "touches t fs fs1 \<Longrightarrow> touches t fs1 fs2 \<Longrightarrow> touches t fs fs2"
  by (simp add: touches_def)

lemma kinds_link_entry [simp]:
  "is_dir (link_entry fs p) q = is_dir fs q"
  "is_file (link_entry fs p) q = is_file fs q"
  "path_exists (link_entry fs p) q = path_exists fs q"
  by (auto simp: link_entry_def is_dir_def is_file_def path_exists_def
      split: option.splits entry.splits)

lemma kinds_unlink_entry [simp]:
  "is_dir (unlink_entry fs p) q = is_dir fs q"
  "is_file (unlink_entry fs p) q = is_file fs q"
  "path_exists (unlink_entry fs p) q = path_exists fs q"
  by (auto simp: unlink_entry_def is_dir_def is_file_def path_exists_def
      split: option.splits entry.splits)

lemma kinds_upd [simp]:
  "is_dir (fs(t \<mapsto> File c)) q = (q \<noteq> t \<and> is_dir fs q)"
  "is_file (fs(t \<mapsto> File c)) q = (q = t \<or> is_file fs q)"
  "is_dir (fs(t \<mapsto> Dir ns)) q = (q = t \<or> is_dir fs q)"
  "is_file (fs(t \<mapsto> Dir ns)) q = (q \<noteq> t \<and> is_file fs q)"
  "path_exists (fs(t \<mapsto> e)) q = (q = t \<or> path_exists fs q)"
  "is_dir (fs(t := None)) q = (q \<noteq> t \<and> is_dir fs q)"
  "is_file (fs(t := None)) q = (q \<noteq> t \<and> is_file fs q)"
  "path_exists (fs(t := None)) q = (q \<noteq> t \<and> path_exists fs q)"
  by (auto simp: is_dir_def is_file_def path_exists_def)

lemma kinds_removed [simp]:
  "is_dir (\<lambda>q. if prefix p q then None else fs q) q = (\<not> prefix p q \<and> is_dir fs q)"
  "is_file (\<lambda>q. if prefix p q then None else fs q) q = (\<not> prefix p q \<and> is_file fs q)"
  "path_exists (\<lambda>q. if prefix p q then None else fs q) q = (\<not> prefix p q \<and> path_exists fs q)"
  by (auto simp: is_dir_def is_file_def path_exists_def)

lemma link_entry_other: "q \<noteq> butlast p \<Longrightarrow> link_entry fs p q = fs q"
  by (simp add: link_entry_def split: option.splits entry.splits)

lemma unlink_entry_other: "q \<noteq> butlast p \<Longrightarrow> unlink_entry fs p q = fs q"
  by (simp add: unlink_entry_def split: option.splits entry.splits)

lemma prefix_butlast_self: "prefix (butlast p) p"
  by (simp add: prefixeq_butlast)

lemma not_prefix_butlast: "p \<noteq> [] \<Longrightarrow> \<not> prefix p (butlast p)"
  by (metis butlast_snoc length_append_singleton not_less_eq_eq prefix_length_le snoc_eq_iff_butlast order_refl)

lemma copy2_Inr:
  assumes "copy2 fs src dst = Inr fs'"
  obtains t c where "t = (if is_dir fs dst then joinpath dst (path_name src) else dst)"
    "fs src = Some (File c)" "\<not> is_dir fs t" "is_dir fs (butlast t)" "t \<noteq> src"
    "fs' = link_entry (fs(t \<mapsto> File c)) t"
  using assms
  by (auto simp: copy2_def Let_def path_parent_def path_exists_def split: option.splits entry.splits if_splits)

lemma copy2_written:
  assumes "copy2 fs src dst = Inr fs'"
  shows "fs' (if is_dir fs dst then joinpath dst (path_name src) else dst) = fs src"
    and "is_file fs src"
proof -
  from assms obtain t c where t: "t = (if is_dir fs dst then joinpath dst (path_name src) else dst)"
    "fs src = Some (File c)" "\<not> is_dir fs t" "is_dir fs (butlast t)"
    "fs' = link_entry (fs(t \<mapsto> File c)) t"
    by (rule copy2_Inr)
  from t(3,4) have "t \<noteq> butlast t" by auto
  with t show "fs' (if is_dir fs dst then joinpath dst (path_name src) else dst) = fs src"
    by (simp add: link_entry_other)
  from t show "is_file fs src" by (simp add: is_file_iff)
qed

lemma copy2_kinds:
  assumes "copy2 fs src dst = Inr fs'"
  shows "is_dir fs' q = is_dir fs q" and "is_file fs q \<Longrightarrow> is_file fs' q"
    and "path_exists fs q \<Longrightarrow> path_exists fs' q"
proof -
  from assms obtain t c where t: "\<not> is_dir fs t" "fs' = link_entry (fs(t \<mapsto> File c)) t"
    by (rule copy2_Inr)
  from t show "is_dir fs' q = is_dir fs q"
    by auto
  from t show "is_file fs q \<Longrightarrow> is_file fs' q"
    by auto
  from t show "path_exists fs q \<Longrightarrow> path_exists fs' q"
    by auto
qed

lemma joinpath_below: "prefix d (joinpath d n)"
  by (simp add: joinpath_def)

lemma copy2_touches:
  assumes "copy2 fs src dst = Inr fs'"
  shows "touches dst fs fs'"
proof -
  from assms obtain t c where t: "t = (if is_dir fs dst then joinpath dst (path_name src) else dst)"
    "\<not> is_dir fs t" "is_dir fs (butlast t)" "fs' = link_entry (fs(t \<mapsto> File c)) t"
    by (rule copy2_Inr)
  from t(1) have below: "prefix dst t" by (simp add: joinpath_below)
  from t(1) have par: "butlast t = butlast dst \<or> butlast t = dst"
    by (auto simp: joinpath_def)
  show ?thesis
    unfolding touches_def
  proof (intro allI impI conjI)
    fix q assume q: "\<not> prefix dst q"
    with below have qt: "q \<noteq> t" by auto
    from q par show "\<not> prefix q (butlast dst) \<Longrightarrow> fs' q = fs q"
      using qt t(4) by (auto simp: link_entry_other)
    from qt t(4) show "is_dir fs q \<Longrightarrow> is_dir fs' q" by simp
    from qt t(4) show "is_file fs' q = is_file fs q" by simp
  qed
qed

lemma rmtree_Inr:
  assumes "rmtree fs p = Inr fs'"
  shows "is_dir fs p" and "fs' = unlink_entry (\<lambda>q. if prefix p q then None else fs q) p"
  using assms by (auto simp: rmtree_def is_dir_def split: option.splits entry.splits)

lemma rmtree_Inr_iff: "(\<exists>fs'. rmtree fs p = Inr fs') \<longleftrightarrow> is_dir fs p"
  by (auto simp: rmtree_def is_dir_def split: option.splits entry.splits)

lemma rmtree_gone: "rmtree fs p = Inr fs' \<Longrightarrow> prefix p q \<Longrightarrow> fs' q = None"
  by (cases "p = []")
     (auto dest!: rmtree_Inr(2) simp: unlink_entry_def not_prefix_butlast split: option.splits entry.splits)

lemma rmtree_touches:
  assumes "rmtree fs p = Inr fs'"
  shows "touches p fs fs'"
proof -
  from assms have fs': "fs' = unlink_entry (\<lambda>q. if prefix p q then None else fs q) p"
    by (rule rmtree_Inr)
  show ?thesis
    unfolding touches_def
  proof (intro allI impI conjI)
    fix q assume q: "\<not> prefix p q"
    then show "\<not> prefix q (butlast p) \<Longrightarrow> fs' q = fs q"
      using fs' by (auto simp: unlink_entry_other)
    from q fs' show "is_dir fs q \<Longrightarrow> is_dir fs' q" by simp
    from q fs' show "is_file fs' q = is_file fs q" by simp
  qed
qed

lemma mkdir_p_dir: "is_dir fs p \<Longrightarrow> mkdir_p fs p = Inr fs"
  by (simp add: mkdir_p.simps)

lemma mkdir_p_Inr:
  "mkdir_p fs p = Inr fs' \<Longrightarrow>
     is_dir fs' p \<and>
     (\<forall>q. (\<not> prefix q p \<longrightarrow> fs' q = fs q) \<and> (is_dir fs q \<longrightarrow> is_dir fs' q) \<and>
          (is_file fs' q = is_file fs q))"
proof (induction fs p arbitrary: fs' rule: mkdir_p.induct)
  case (1 fs p)
  show ?case
  proof (cases "is_dir fs p")
    case True
    with "1.prems" show ?thesis by (simp add: mkdir_p.simps [of fs p])
  next
    case False
    with "1.prems" have ne: "\<not> path_exists fs p" "p \<noteq> []"
      and par: "\<not> (path_exists fs (butlast p) \<and> \<not> is_dir fs (butlast p))"
      by (auto simp: mkdir_p.simps [of fs p] split: if_splits)
    with False "1.prems" obtain fs1 where fs1: "mkdir_p fs (butlast p) = Inr fs1"
      and fs': "fs' = link_entry (fs1(p \<mapsto> Dir [])) p"
      by (auto simp: mkdir_p.simps [of fs p] split: sum.splits)
    from "1.IH" [OF False ne(1) ne(2) par fs1]
    have IH: "is_dir fs1 (butlast p)"
      "\<And>q. \<not> prefix q (butlast p) \<Longrightarrow> fs1 q = fs q"
      "\<And>q. is_dir fs q \<Longrightarrow> is_dir fs1 q"
      "\<And>q. is_file fs1 q = is_file fs q"
      by auto
    have pre: "\<And>q. \<not> prefix q p \<Longrightarrow> \<not> prefix q (butlast p)"
      using prefix_butlast_self [of p] by (meson prefix_order.trans)
    show ?thesis
    proof (intro conjI allI impI)
      show "is_dir fs' p" using fs' by simp
    next
      fix q assume "\<not> prefix q p"
      then have "q \<noteq> p" "q \<noteq> butlast p" "\<not> prefix q (butlast p)"
        using pre by auto
      then show "fs' q = fs q" using fs' IH(2) by (simp add: link_entry_other)
    next
      fix q assume "is_dir fs q"
      then have "is_dir fs1 q" by (rule IH(3))
      then show "is_dir fs' q" using fs' by simp
    next
      fix q
      from ne(1) have "\<not> is_file fs p" by (simp add: exists_iff)
      then show "is_file fs' q = is_file fs q"
        using fs' IH(4) [of q] IH(4) [of p] by auto
    qed
  qed
qed

lemma kinds_if [simp]:
  "is_dir (\<lambda>q. if c q then f q else g q) q = (if c q then is_dir f q else is_dir g q)"
  "is_file (\<lambda>q. if c q then f q else g q) q = (if c q then is_file f q else is_file g q)"
  "path_exists (\<lambda>q. if c q then f q else g q) q = (if c q then path_exists f q else path_exists g q)"
  by (auto simp: is_dir_def is_file_def path_exists_def)

lemma kinds_shift [simp]:
  "is_dir (\<lambda>q. fs (h q)) q = is_dir fs (h q)"
  "is_file (\<lambda>q. fs (h q)) q = is_file fs (h q)"
  "path_exists (\<lambda>q. fs (h q)) q = path_exists fs (h q)"
  by (auto simp: is_dir_def is_file_def path_exists_def)

lemma copytree_Inr:
  assumes "copytree fs src dst = Inr fs'"
  obtains fs1 where "is_dir fs src" "\<not> path_exists fs dst" "mkdir_p fs (butlast dst) = Inr fs1"
    "fs' = link_entry (\<lambda>q. if prefix dst q then fs (src @ drop (length dst) q) else fs1 q) dst"
  using assms
  by (auto simp: copytree_def is_dir_def path_parent_def split: option.splits entry.splits if_splits sum.splits)

lemma copytree_ok:
  assumes "is_dir fs src" "\<not> path_exists fs dst" "is_dir fs (butlast dst)"
  shows "\<exists>fs'. copytree fs src dst = Inr fs'"
  using assms by (auto simp: copytree_def is_dir_iff path_parent_def mkdir_p_dir)

lemma copytree_copied:
  assumes "copytree fs src dst = Inr fs'" "prefix dst q"
  shows "fs' q = fs (src @ drop (length dst) q)"
proof -
  from assms(1) obtain fs1 where
    fs': "fs' = link_entry (\<lambda>q. if prefix dst q then fs (src @ drop (length dst) q) else fs1 q) dst"
    by (rule copytree_Inr)
  show ?thesis
  proof (cases "dst = []")
    case True
    with fs' show ?thesis by (simp add: link_entry_def)
  next
    case False
    with assms(2) have "q \<noteq> butlast dst"
      using not_prefix_butlast [of dst] by auto
    with fs' assms(2) show ?thesis by (simp add: link_entry_other)
  qed
qed

lemma copytree_touches:
  assumes "copytree fs src dst = Inr fs'"
  shows "touches dst fs fs'"
proof -
  from assms obtain fs1 where mk: "mkdir_p fs (butlast dst) = Inr fs1" and
    fs': "fs' = link_entry (\<lambda>q. if prefix dst q then fs (src @ drop (length dst) q) else fs1 q) dst"
    by (rule copytree_Inr)
  note m = mkdir_p_Inr [OF mk]
  show ?thesis
    unfolding touches_def
  proof (intro allI impI conjI)
    fix q assume q: "\<not> prefix dst q"
    show "\<not> prefix q (butlast dst) \<Longrightarrow> fs' q = fs q"
      using q fs' m by (auto simp: link_entry_other)
    show "is_dir fs q \<Longrightarrow> is_dir fs' q" using q fs' m by simp
    show "is_file fs' q = is_file fs q" using q fs' m by simp
  qed
qed

lemma replace_tree_touches:
  assumes "replace_tree src t fs = (r, fs', out)"
  shows "touches t fs fs'"
proof (cases "path_exists fs t")
  case False
  with assms show ?thesis
    by (auto simp: replace_tree_def attempt_def split: sum.splits dest: copytree_touches)
next
  case True
  show ?thesis
  proof (cases "rmtree fs t")
    case (Inl e)
    with True assms show ?thesis by (simp add: replace_tree_def attempt_def andthen_def)
  next
    case (Inr fs1)
    then have 1: "touches t fs fs1" by (rule rmtree_touches)
    from Inr True assms have "fs' = fs1 \<or> copytree fs1 src t = Inr fs'"
      by (auto simp: replace_tree_def attempt_def andthen_def split: sum.splits)
    then have "touches t fs1 fs'" by (auto dest: copytree_touches)
    with 1 show ?thesis by (rule touches_trans)
  qed
qed

lemma replace_tree_made:
  assumes "replace_tree src t fs = (Inr u, fs', out)"
  shows "is_dir fs' t"
proof -
  from assms obtain fsa where "copytree fsa src t = Inr fs'"
    by (auto simp: replace_tree_def attempt_def andthen_def split: sum.splits if_splits)
  then have "fs' t = fsa src" and "is_dir fsa src"
    using copytree_copied [of fsa src t fs' t] by (auto elim: copytree_Inr)
  then show ?thesis by (simp add: is_dir_def)
qed

lemma replace_tree_ok:
  assumes "is_dir fs src" "\<not> is_file fs t" "is_dir fs (butlast t)" "\<not> prefix t src" "t \<noteq> []"
  shows "\<exists>fs'. replace_tree src t fs = (Inr (), fs', [])"
proof (cases "path_exists fs t")
  case False
  with assms copytree_ok [of fs src t] show ?thesis
    by (auto simp: replace_tree_def attempt_def)
next
  case True
  with assms(2) have "is_dir fs t" by (simp add: exists_iff)
  then obtain fs1 where rm: "rmtree fs t = Inr fs1" using rmtree_Inr_iff by blast
  from rmtree_touches [OF rm] assms not_prefix_butlast [of t]
  have "is_dir fs1 src" "is_dir fs1 (butlast t)" by (auto simp: touches_def)
  moreover from rmtree_gone [OF rm, of t] have "\<not> path_exists fs1 t" by (simp add: path_exists_def)
  ultimately obtain fs' where "copytree fs1 src t = Inr fs'"
    using copytree_ok by blast
  with rm True show ?thesis
    by (simp add: replace_tree_def attempt_def andthen_def)
qed

lemma replace_tree_keeps:
  assumes r: "replace_tree src t fs = (r, fs', out)"
    and "is_dir fs src" "is_dir fs (butlast t)" "\<not> prefix t src" "t \<noteq> []"
  shows "path_exists fs' t"
proof (cases "is_file fs t")
  case True
  then have "path_exists fs t" "\<not> is_dir fs t" by (auto simp: exists_iff not_file_and_dir)
  then have "rmtree fs t = Inl NotADirectoryError"
    using True by (auto simp: rmtree_def is_file_def split: option.splits entry.splits)
  with r \<open>path_exists fs t\<close> have "fs' = fs" by (simp add: replace_tree_def attempt_def andthen_def)
  with \<open>path_exists fs t\<close> show ?thesis by simp
next
  case False
  with assms obtain fs2 where "replace_tree src t fs = (Inr (), fs2, [])"
    using replace_tree_ok by blast
  with r show ?thesis using replace_tree_made [of src t fs "()" fs' out] by (simp add: exists_iff)
qed

lemma outside_refl [simp]: "outside d fs fs"
  by (simp add: outside_def)

lemma outside_trans: "outside d fs fs1 \<Longrightarrow> outside d fs1 fs2 \<Longrightarrow> outside d fs fs2"
  by (simp add: outside_def)

lemma keeps_refl [simp]: "keeps d fs fs"
  by (simp add: keeps_def)

lemma keeps_trans: "keeps d fs fs1 \<Longrightarrow> keeps d fs1 fs2 \<Longrightarrow> keeps d fs fs2"
  by (simp add: keeps_def)

lemma not_prefix_snoc: "\<not> prefix d item \<Longrightarrow> \<not> prefix (d @ [n]) item"
  using prefix_order.trans [of d "d @ [n]" item] by auto

lemma touches_outside: "touches (d @ [n]) fs fs' \<Longrightarrow> outside d fs fs'"
  unfolding outside_def
proof (intro allI impI conjI)
  fix q
  assume t: "touches (d @ [n]) fs fs'"
  {
    assume q: "\<not> prefix d q \<and> \<not> prefix q d"
    then have "\<not> prefix (d @ [n]) q" by (simp add: not_prefix_snoc)
    with t q show "fs' q = fs q" by (simp add: touches_def)
  }
  {
    assume q: "\<not> strict_prefix d q"
    have nq: "\<not> prefix (d @ [n]) q"
    proof
      assume "prefix (d @ [n]) q"
      then have "strict_prefix d q" by (auto simp: strict_prefix_def prefix_def)
      with q show False by simp
    qed
    from t nq show "is_dir fs q \<Longrightarrow> is_dir fs' q" by (simp add: touches_def)
    from t nq show "is_file fs' q = is_file fs q" by (simp add: touches_def)
  }
qed

lemma touches_keeps:
  assumes "touches (d @ [n]) fs fs'"
    and "path_exists fs (d @ [n]) \<Longrightarrow> path_exists fs' (d @ [n])"
  shows "keeps d fs fs'"
  unfolding keeps_def
proof (intro impI conjI allI)
  assume "is_dir fs d"
  with assms(1) show "is_dir fs' d" by (simp add: touches_def)
next
  fix m assume m: "path_exists fs (d @ [m])"
  show "path_exists fs' (d @ [m])"
  proof (cases "m = n")
    case True
    with m assms(2) show ?thesis by simp
  next
    case False
    then have "\<not> prefix (d @ [n]) (d @ [m])" by simp
    with assms(1) have "is_dir fs (d @ [m]) \<longrightarrow> is_dir fs' (d @ [m])"
      "is_file fs' (d @ [m]) = is_file fs (d @ [m])"
      by (simp_all add: touches_def)
    with m show ?thesis by (auto simp: exists_iff)
  qed
qed

lemma copy2_ok:
  assumes "is_file fs src" "\<not> is_dir fs t" "is_dir fs (butlast t)" "src \<noteq> t"
  shows "\<exists>fs'. copy2 fs src t = Inr fs'"
  using assms
  by (auto simp: copy2_def Let_def is_file_iff path_parent_def exists_iff)

lemma copy_entry_touches:
  assumes "copy_entry item d fs = (r, fs', out)"
  shows "touches (joinpath d (path_name item)) fs fs'"
proof (cases "is_file fs item")
  case True
  show ?thesis
  proof (cases "copy2 fs item (joinpath d (path_name item))")
    case (Inl e)
    with True assms show ?thesis by (simp add: copy_entry_def attempt_def)
  next
    case (Inr fs2)
    with True assms have "fs' = fs2" by (simp add: copy_entry_def attempt_def)
    with copy2_touches [OF Inr] show ?thesis by simp
  qed
next
  case False
  show ?thesis
  proof (cases "is_dir fs item")
    case True
    with False assms have "replace_tree item (joinpath d (path_name item)) fs = (r, fs', out)"
      by (simp add: copy_entry_def)
    then show ?thesis by (rule replace_tree_touches)
  next
    case nd: False
    with False assms show ?thesis by (simp add: copy_entry_def)
  qed
qed

lemma copy_entry_target:
  assumes ce: "copy_entry item d fs = (r, fs', out)"
    and d: "is_dir fs d" and np: "\<not> prefix d item" and n: "path_name item \<noteq> []"
    and ex: "path_exists fs item"
  shows "path_exists fs' (d @ [path_name item])"
proof -
  let ?t = "d @ [path_name item]"
  from n have t: "joinpath d (path_name item) = ?t" by (simp add: joinpath_snoc)
  from np have npt: "\<not> prefix ?t item" by (rule not_prefix_snoc)
  then have ne: "item \<noteq> ?t" by auto
  show ?thesis
  proof (cases "is_file fs item")
    case True
    show ?thesis
    proof (cases "is_dir fs ?t")
      case dir: True
      show ?thesis
      proof (cases "copy2 fs item ?t")
        case (Inl e)
        with ce True t have "fs' = fs" by (simp add: copy_entry_def attempt_def)
        with dir show ?thesis by (simp add: exists_iff)
      next
        case (Inr fs2)
        with ce True t have "fs' = fs2" by (simp add: copy_entry_def attempt_def)
        with copy2_kinds(1) [OF Inr, of ?t] dir show ?thesis by (simp add: exists_iff)
      qed
    next
      case False
      with True d ne obtain fs2 where c: "copy2 fs item ?t = Inr fs2"
        using copy2_ok [of fs item ?t] by auto
      with ce True t have "fs' = fs2" by (simp add: copy_entry_def attempt_def)
      with copy2_written(1) [OF c] False True show ?thesis
        by (auto simp: path_exists_def is_file_iff)
    qed
  next
    case False
    with ex have dir: "is_dir fs item" by (simp add: exists_iff)
    with ce False t have "replace_tree item ?t fs = (r, fs', out)"
      by (simp add: copy_entry_def)
    then show ?thesis
      using dir d npt by (intro replace_tree_keeps [of item ?t fs r fs' out]) simp_all
  qed
qed

lemma copy_entry_keeps:
  assumes ce: "copy_entry item d fs = (r, fs', out)"
    and np: "\<not> prefix d item" and n: "path_name item \<noteq> []"
  shows "keeps d fs fs'"
proof (cases "is_dir fs d")
  case False
  then show ?thesis by (simp add: keeps_def)
next
  case d: True
  show ?thesis
  proof (cases "path_exists fs item")
    case False
    with ce have "fs' = fs" by (simp add: copy_entry_def exists_iff)
    then show ?thesis by simp
  next
    case True
    from copy_entry_touches [OF ce] n have "touches (d @ [path_name item]) fs fs'"
      by (simp add: joinpath_snoc)
    moreover have "path_exists fs' (d @ [path_name item])"
      using ce d np n True by (rule copy_entry_target)
    ultimately show ?thesis by (intro touches_keeps) simp_all
  qed
qed

lemma copy_entries_Cons:
  assumes "copy_entries (item # items) d fs = (fs', out)"
  obtains r fs1 o1 o2 where "copy_entry item d fs = (r, fs1, o1)"
    "copy_entries items d fs1 = (fs', o2)"
proof -
  obtain r fs1 o1 where ce: "copy_entry item d fs = (r, fs1, o1)"
    by (metis prod_cases3)
  obtain fs2 o2 where rest: "copy_entries items d fs1 = (fs2, o2)"
    by (metis prod.exhaust)
  from assms ce rest have "fs2 = fs'" by (cases r) simp_all
  with ce rest that show ?thesis by blast
qed

lemma copy_entries_effect:
  assumes "copy_entries items d fs = (fs', out)"
    and "\<forall>item\<in>set items. \<not> prefix d item \<and> \<not> prefix item d \<and> path_name item \<noteq> []"
  shows "outside d fs fs' \<and> keeps d fs fs' \<and>
         (is_dir fs d \<longrightarrow>
            (\<forall>item\<in>set items. path_exists fs item \<longrightarrow> path_exists fs' (d @ [path_name item])))"
  using assms
proof (induction items arbitrary: fs fs' out)
  case Nil
  then show ?case by simp
next
  case (Cons item items)
  from Cons.prems(1) obtain r fs1 o1 o2 where ce: "copy_entry item d fs = (r, fs1, o1)"
    and rest: "copy_entries items d fs1 = (fs', o2)"
    by (rule copy_entries_Cons)
  from Cons.prems(2) have it: "\<not> prefix d item" "\<not> prefix item d" "path_name item \<noteq> []"
    and its: "\<forall>item\<in>set items. \<not> prefix d item \<and> \<not> prefix item d \<and> path_name item \<noteq> []"
    by simp_all
  from copy_entry_touches [OF ce] it(3) have "touches (d @ [path_name item]) fs fs1"
    by (simp add: joinpath_snoc)
  then have o1: "outside d fs fs1" by (rule touches_outside)
  from copy_entry_keeps [OF ce it(1) it(3)] have k1: "keeps d fs fs1" .
  from Cons.IH [OF rest its] have IH: "outside d fs1 fs'" "keeps d fs1 fs'"
    "is_dir fs1 d \<Longrightarrow> \<forall>item\<in>set items. path_exists fs1 item \<longrightarrow> path_exists fs' (d @ [path_name item])"
    by simp_all
  show ?case
  proof (intro conjI impI ballI)
    show "outside d fs fs'" using o1 IH(1) by (rule outside_trans)
    show "keeps d fs fs'" using k1 IH(2) by (rule keeps_trans)
  next
    fix x assume d: "is_dir fs d" and x: "x \<in> set (item # items)" and ex: "path_exists fs x"
    from d k1 have d1: "is_dir fs1 d" by (simp add: keeps_def)
    show "path_exists fs' (d @ [path_name x])"
    proof (cases "x = item")
      case True
      with copy_entry_target [OF ce d it(1) it(3)] ex
      have "path_exists fs1 (d @ [path_name x])" by simp
      with d1 IH(2) show ?thesis by (simp add: keeps_def)
    next
      case False
      with x have xi: "x \<in> set items" by simp
      with its have "\<not> prefix d x" "\<not> prefix x d" by simp_all
      with o1 have "fs1 x = fs x" by (simp add: outside_def)
      with ex have "path_exists fs1 x" by (simp add: path_exists_def)
      with IH(3) [OF d1] xi show ?thesis by simp
    qed
  qed
qed

lemma outside_frame:
  "outside (g @ [x]) fs fs' \<Longrightarrow> \<not> prefix g q \<Longrightarrow> \<not> prefix q g \<Longrightarrow> fs' q = fs q"
  unfolding outside_def
  by (metis not_prefix_snoc prefix_snoc)

lemma outside_keeps_parent: "outside (g @ [x]) fs fs' \<Longrightarrow> keeps g fs fs'"
  unfolding outside_def keeps_def
proof (intro impI conjI allI)
  assume o: "\<forall>q. (\<not> prefix (g @ [x]) q \<and> \<not> prefix q (g @ [x]) \<longrightarrow> fs' q = fs q) \<and>
        (\<not> strict_prefix (g @ [x]) q \<longrightarrow> (is_dir fs q \<longrightarrow> is_dir fs' q) \<and> is_file fs' q = is_file fs q)"
  have 1: "\<not> strict_prefix (g @ [x]) g" by (auto simp: strict_prefix_def prefix_def)
  with o show "is_dir fs g \<Longrightarrow> is_dir fs' g" by simp
  fix m
  have "\<not> strict_prefix (g @ [x]) (g @ [m])" by (auto simp: strict_prefix_def)
  with o have "(is_dir fs (g @ [m]) \<longrightarrow> is_dir fs' (g @ [m])) \<and> is_file fs' (g @ [m]) = is_file fs (g @ [m])"
    by blast
  then show "path_exists fs (g @ [m]) \<Longrightarrow> path_exists fs' (g @ [m])"
    by (auto simp: exists_iff)
qed

lemma outside_keeps_sibling:
  assumes "outside (g @ [x]) fs fs'" "x \<noteq> d"
  shows "keeps (g @ [d]) fs fs'"
  unfolding keeps_def
proof (intro impI conjI allI)
  from assms(1) have o: "\<And>q. \<not> strict_prefix (g @ [x]) q \<Longrightarrow>
      (is_dir fs q \<longrightarrow> is_dir fs' q) \<and> is_file fs' q = is_file fs q"
    by (simp add: outside_def)
  from assms(2) have 1: "\<not> strict_prefix (g @ [x]) (g @ [d])" by (auto simp: strict_prefix_def)
  with o show "is_dir fs (g @ [d]) \<Longrightarrow> is_dir fs' (g @ [d])" by blast
  fix m
  from assms(2) have "\<not> strict_prefix (g @ [x]) ((g @ [d]) @ [m])"
    by (auto simp: strict_prefix_def prefix_def)
  from o [OF this] show "path_exists fs ((g @ [d]) @ [m]) \<Longrightarrow> path_exists fs' ((g @ [d]) @ [m])"
    by (auto simp: exists_iff)
qed

lemma mkdir_p_outside: "mkdir_p fs d = Inr fs' \<Longrightarrow> outside d fs fs'"
  by (drule mkdir_p_Inr) (simp add: outside_def)

lemma mkdir_p_keeps: "mkdir_p fs p = Inr fs' \<Longrightarrow> keeps d fs fs'"
  by (drule mkdir_p_Inr) (auto simp: keeps_def exists_iff)

lemma apart_below:
  assumes "\<not> prefix p g" "\<not> prefix g p" "prefix p q"
  shows "\<not> prefix g q" and "\<not> prefix q g"
    and "\<not> prefix (g @ [x]) q" and "\<not> prefix q (g @ [x])"
proof -
  show 1: "\<not> prefix g q"
    using assms prefix_same_cases [of g q p] by blast
  show 2: "\<not> prefix q g"
    using assms prefix_order.trans [of p q g] by blast
  from 1 show "\<not> prefix (g @ [x]) q" by (rule not_prefix_snoc)
  show "\<not> prefix q (g @ [x])"
  proof
    assume "prefix q (g @ [x])"
    then have "q = g @ [x] \<or> prefix q g" by (simp add: prefix_snoc)
    with 1 2 show False by auto
  qed
qed

lemma iterdir_items:
  assumes "iterdir fs p = Inr items" "item \<in> set items"
  shows "\<exists>n. n \<noteq> [] \<and> item = p @ [n]" and "path_name item \<noteq> []" and "prefix p item"
  using assms
  by (auto simp: iterdir_def joinpath_def path_name_def split: option.splits entry.splits)

lemma find_subdir_Some:
  assumes "find_subdir_case_insensitive fs p nm = Inr (Some sub)"
  shows "\<exists>n. n \<noteq> [] \<and> sub = p @ [n]" and "is_dir fs sub" and "prefix p sub"
proof -
  from assms obtain items where it: "iterdir fs p = Inr items"
    and f: "find (\<lambda>item. is_dir fs item \<and> str_lower (path_name item) = str_lower nm) items = Some sub"
    by (auto simp: find_subdir_case_insensitive_def split: if_splits sum.splits)
  from find_Some_set [OF f] have "sub \<in> set items" "is_dir fs sub" by simp_all
  with iterdir_items [OF it]
  show "\<exists>n. n \<noteq> [] \<and> sub = p @ [n]" and "is_dir fs sub" and "prefix p sub" by auto
qed

lemma iterdir_cong: "fs' p = fs p \<Longrightarrow> iterdir fs' p = iterdir fs p"
  by (simp add: iterdir_def)

lemma find_subdir_cong:
  assumes "\<And>q. prefix p q \<Longrightarrow> fs' q = fs q"
  shows "find_subdir_case_insensitive fs' p nm = find_subdir_case_insensitive fs p nm"
proof -
  from assms have p: "fs' p = fs p" by simp
  have "find (\<lambda>item. is_dir fs' item \<and> str_lower (path_name item) = str_lower nm) items
      = find (\<lambda>item. is_dir fs item \<and> str_lower (path_name item) = str_lower nm) items"
    if "iterdir fs p = Inr items" for items
  proof (rule find_cong [OF refl])
    fix x assume "x \<in> set items"
    with that have "prefix p x" by (rule iterdir_items)
    with assms have "fs' x = fs x" by simp
    then show "(is_dir fs' x \<and> str_lower (path_name x) = str_lower nm)
       = (is_dir fs x \<and> str_lower (path_name x) = str_lower nm)"
      by (simp add: is_dir_def)
  qed
  with p show ?thesis
    by (simp add: find_subdir_case_insensitive_def iterdir_cong [of fs' p fs] path_exists_def
        split: sum.splits)
qed

lemma any_subdir_cong:
  assumes "\<And>q. prefix p q \<Longrightarrow> fs' q = fs q"
  shows "any_subdir fs' p ns = any_subdir fs p ns"
  by (induction ns) (simp_all add: find_subdir_cong [OF assms] split: sum.splits option.splits)

lemma has_structure_cong:
  assumes "\<And>q. prefix p q \<Longrightarrow> fs' q = fs q"
  shows "has_structure fs' p = has_structure fs p"
  unfolding has_structure_def by (rule any_subdir_cong) (rule assms)

lemma copy_root_effect:
  assumes cr: "copy_root mod_path nm (g @ [x]) create fs = (r, fs', out)"
    and ap: "\<not> prefix mod_path g" "\<not> prefix g mod_path"
  shows "outside (g @ [x]) fs fs'" and "keeps (g @ [x]) fs fs'"
proof -
  let ?dst = "g @ [x]"
  have "outside ?dst fs fs' \<and> keeps ?dst fs fs'"
  proof (cases "find_subdir_case_insensitive fs mod_path nm")
    case (Inl e)
    with cr show ?thesis by (simp add: copy_root_def)
  next
    case (Inr found)
    show ?thesis
    proof (cases found)
      case None
      with Inr cr show ?thesis by (simp add: copy_root_def)
    next
      case (Some sub)
      with Inr have sub: "prefix mod_path sub" by (auto dest: find_subdir_Some(3))
      have "\<exists>fs1. outside ?dst fs fs1 \<and> keeps ?dst fs fs1 \<and>
              (fs' = fs1 \<or> (\<exists>items out'. iterdir fs1 sub = Inr items \<and> copy_entries items ?dst fs1 = (fs', out')))"
      proof (cases "create \<and> (\<exists>fs1. mkdir_p fs ?dst = Inr fs1)")
        case True
        then obtain fs1 where mk: "mkdir_p fs ?dst = Inr fs1" by blast
        with cr Inr Some True have "fs' = fs1 \<or> (\<exists>items out'. iterdir fs1 sub = Inr items \<and> copy_entries items ?dst fs1 = (fs', out'))"
          by (auto simp: copy_root_def andthen_def attempt_def split: sum.splits prod.splits)
        with mkdir_p_outside [OF mk] mkdir_p_keeps [OF mk] show ?thesis by blast
      next
        case False
        with cr Inr Some have "fs' = fs \<or> (\<exists>items out'. iterdir fs sub = Inr items \<and> copy_entries items ?dst fs = (fs', out'))"
          by (auto simp: copy_root_def andthen_def attempt_def split: sum.splits prod.splits if_splits)
        then show ?thesis by (intro exI [of _ fs]) simp
      qed
      then obtain fs1 where 1: "outside ?dst fs fs1" "keeps ?dst fs fs1"
        and 2: "fs' = fs1 \<or> (\<exists>items out'. iterdir fs1 sub = Inr items \<and> copy_entries items ?dst fs1 = (fs', out'))"
        by blast
      from 2 show ?thesis
      proof
        assume "fs' = fs1"
        with 1 show ?thesis by simp
      next
        assume "\<exists>items out'. iterdir fs1 sub = Inr items \<and> copy_entries items ?dst fs1 = (fs', out')"
        then obtain items out' where it: "iterdir fs1 sub = Inr items"
          and ce: "copy_entries items ?dst fs1 = (fs', out')" by blast
        have "\<forall>item\<in>set items. \<not> prefix ?dst item \<and> \<not> prefix item ?dst \<and> path_name item \<noteq> []"
        proof
          fix item assume i: "item \<in> set items"
          from iterdir_items [OF it i] sub have "prefix mod_path item" "path_name item \<noteq> []"
            by (auto intro: prefix_order.trans)
          with apart_below(3,4) [OF ap, of item x]
          show "\<not> prefix ?dst item \<and> \<not> prefix item ?dst \<and> path_name item \<noteq> []" by simp
        qed
        from copy_entries_effect [OF ce this] 1 show ?thesis
          by (auto intro: outside_trans keeps_trans)
      qed
    qed
  qed
  then show "outside (g @ [x]) fs fs'" and "keeps (g @ [x]) fs fs'" by simp_all
qed

lemma andthenE:
  assumes "andthen r f = (res, fs', out)"
  obtains (raised) e where "r = (Inl e, fs', out)" "res = Inl e"
  | (went_on) x fs1 o1 o2 where "r = (Inr x, fs1, o1)" "f x fs1 = (res, fs', o2)" "out = o1 @ o2"
proof (cases r)
  case (fields a fs1 o1)
  show ?thesis
  proof (cases a)
    case (Inl e)
    with fields assms raised show ?thesis by (simp add: andthen_def)
  next
    case (Inr x)
    obtain res2 fs2 o2 where f: "f x fs1 = (res2, fs2, o2)" by (metis prod_cases3)
    with fields Inr assms went_on show ?thesis by (simp add: andthen_def)
  qed
qed

lemma saidE:
  assumes "said es r = (res, fs', out)"
  obtains o1 where "r = (res, fs', o1)" "out = es @ o1"
  using assms by (cases r) (simp add: said_def)

lemma evolves_refl [simp]: "evolves g d fs fs"
  by (simp add: evolves_def)

lemma evolves_trans: "evolves g d fs fs1 \<Longrightarrow> evolves g d fs1 fs2 \<Longrightarrow> evolves g d fs fs2"
  unfolding evolves_def by (auto intro: keeps_trans)

lemma outside_evolves:
  assumes "outside (g @ [x]) fs fs'" "keeps (g @ [x]) fs fs'"
  shows "evolves g d fs fs'"
  unfolding evolves_def
proof (intro conjI allI impI)
  fix q assume "\<not> prefix g q \<and> \<not> prefix q g"
  with assms(1) show "fs' q = fs q" by (simp add: outside_frame)
next
  show "keeps (g @ [d]) fs fs'"
    using assms outside_keeps_sibling [of g x fs fs' d] by (cases "x = d") simp_all
next
  show "keeps g fs fs'" using assms(1) by (rule outside_keeps_parent)
qed

lemma copy_structured_mod_evolves:
  assumes cs: "copy_structured_mod p (g @ [d]) fs = (r, fs', out)"
    and ap: "\<not> prefix p g" "\<not> prefix g p"
  shows "evolves g d fs fs'"
proof (cases "path_exists fs p")
  case False
  with cs show ?thesis by (simp add: copy_structured_mod_def)
next
  case True
  have root: "evolves g d a b" if "copy_root p nm (g @ [x]) c a = (r', b, o')" for nm x c a b r' o'
    using copy_root_effect [OF that ap] by (rule outside_evolves)
  from cs True obtain o1 where
    "andthen (copy_root p ''Mods'' (g @ [d]) False fs)
       (\<lambda>u fs1. andthen (copy_root p ''Plugins'' (g @ [''Plugins'']) True fs1)
          (\<lambda>u fs2. copy_root p ''UserLibs'' (g @ [''UserLibs'']) True fs2)) = (r, fs', o1)"
    by (auto simp: copy_structured_mod_def path_parent_def joinpath_def elim: saidE)
  then show ?thesis
  proof (cases rule: andthenE)
    case (raised e)
    from raised(1) show ?thesis by (rule root)
  next
    case (went_on x fs1 o1 o2)
    from went_on(1) have 1: "evolves g d fs fs1" by (rule root)
    from went_on(2) have "evolves g d fs1 fs'"
    proof (cases rule: andthenE)
      case (raised e)
      from raised(1) show ?thesis by (rule root)
    next
      case (went_on y fs2 o3 o4)
      from went_on(1) have "evolves g d fs1 fs2" by (rule root)
      moreover from went_on(2) have "evolves g d fs2 fs'" by (rule root)
      ultimately show ?thesis by (rule evolves_trans)
    qed
    with 1 show ?thesis by (rule evolves_trans)
  qed
qed

lemma touches_keeps_dir:
  assumes "touches (d @ [n]) fs fs'"
    and "is_dir fs d \<Longrightarrow> path_exists fs (d @ [n]) \<Longrightarrow> path_exists fs' (d @ [n])"
  shows "keeps d fs fs'"
proof (cases "is_dir fs d")
  case True
  with assms show ?thesis by (intro touches_keeps) simp_all
next
  case False
  then show ?thesis by (simp add: keeps_def)
qed

lemma touches_evolves:
  assumes "touches (g @ [d, n]) fs fs'"
    and "is_dir fs (g @ [d]) \<Longrightarrow> path_exists fs (g @ [d, n]) \<Longrightarrow> path_exists fs' (g @ [d, n])"
  shows "evolves g d fs fs'"
proof (rule outside_evolves)
  from assms(1) have t: "touches ((g @ [d]) @ [n]) fs fs'" by simp
  then show "outside (g @ [d]) fs fs'" by (rule touches_outside)
  from t assms(2) show "keeps (g @ [d]) fs fs'" by (intro touches_keeps_dir) simp_all
qed

lemma copy_mod_file_evolves:
  assumes "copy_mod_file p (g @ [d]) skip fs = (r, fs', out)" and "path_name p \<noteq> []"
  shows "evolves g d fs fs'"
proof (cases "copy2 fs p (g @ [d, path_name p])")
  case (Inl e)
  with assms have "fs' = fs"
    by (auto simp: copy_mod_file_def Let_def joinpath_snoc said_def split: if_splits)
  then show ?thesis by simp
next
  case (Inr fs2)
  with assms have "fs' = fs \<or> fs' = fs2"
    by (auto simp: copy_mod_file_def Let_def joinpath_snoc said_def split: if_splits)
  then show ?thesis
  proof
    assume "fs' = fs2"
    with copy2_touches [OF Inr] copy2_kinds(3) [OF Inr] show ?thesis
      by (intro touches_evolves) simp_all
  qed simp
qed

lemma copy_mod_folder_evolves:
  assumes cf: "copy_mod_folder p (g @ [d]) skip fs = (r, fs', out)" and n: "path_name p \<noteq> []"
    and dir: "is_dir fs p" and ap: "\<not> prefix g p"
  shows "evolves g d fs fs'"
proof -
  let ?t = "g @ [d, path_name p]"
  obtain r2 fs2 o2 where rt: "replace_tree p ?t fs = (r2, fs2, o2)" by (metis prod_cases3)
  with cf n have "fs' = fs \<or> fs' = fs2"
    by (auto simp: copy_mod_folder_def Let_def joinpath_snoc said_def split: if_splits sum.splits)
  then show ?thesis
  proof
    assume "fs' = fs2"
    moreover have "\<not> prefix ?t p"
      using ap not_prefix_snoc [of "g @ [d]" p "path_name p"] not_prefix_snoc [of g p d] by simp
    ultimately show ?thesis
      using replace_tree_touches [OF rt] replace_tree_keeps [OF rt dir]
      by (intro touches_evolves) (simp_all add: butlast_append)
  qed simp
qed

lemma copy_mod_structured_evolves:
  assumes "copy_mod_structured p (g @ [d]) skip fs = (r, fs', out)"
    and ap: "\<not> prefix p g" "\<not> prefix g p"
  shows "evolves g d fs fs'"
proof -
  obtain r2 fs2 o2 where cs: "copy_structured_mod p (g @ [d]) fs = (r2, fs2, o2)"
    by (metis prod_cases3)
  with assms(1) have "fs' = fs \<or> fs' = fs2"
    by (auto simp: copy_mod_structured_def said_def andthen_def split: if_splits sum.splits bool.splits)
  with copy_structured_mod_evolves [OF cs ap] show ?thesis by auto
qed

lemma copy_mod_item_evolves:
  assumes ci: "copy_mod_item p (g @ [d]) skip ts fs = (r, fs', out)"
    and ap: "\<not> prefix p g" "\<not> prefix g p" and n: "path_name p \<noteq> []"
  shows "evolves g d fs fs'"
proof (cases "path_exists fs p")
  case False
  with ci show ?thesis by (simp add: copy_mod_item_def)
next
  case ex: True
  show ?thesis
  proof (cases "is_file fs p")
    case True
    with ci ex obtain o1 where "copy_mod_file p (g @ [d]) skip fs = (r, fs', o1)"
      by (auto simp: copy_mod_item_def elim: saidE)
    then show ?thesis using n by (rule copy_mod_file_evolves)
  next
    case False
    with ex have dir: "is_dir fs p" by (simp add: exists_iff)
    show ?thesis
    proof (cases "has_structure fs p")
      case (Inl e)
      with ci ex False show ?thesis by (auto simp: copy_mod_item_def elim: saidE)
    next
      case (Inr b)
      show ?thesis
      proof (cases b)
        case True
        with ci ex False Inr obtain o1 where "copy_mod_structured p (g @ [d]) skip fs = (r, fs', o1)"
          by (auto simp: copy_mod_item_def elim: saidE)
        then show ?thesis using ap by (rule copy_mod_structured_evolves)
      next
        case nb: False
        with ci ex False Inr obtain o1 where "copy_mod_folder p (g @ [d]) skip fs = (r, fs', o1)"
          by (auto simp: copy_mod_item_def elim: saidE)
        then show ?thesis using n dir ap(2) by (rule copy_mod_folder_evolves)
      qed
    qed
  qed
qed

lemma has_structure_dir: "is_dir fs p \<Longrightarrow> \<exists>b. has_structure fs p = Inr b"
  by (auto simp: has_structure_def is_dir_iff find_subdir_Dir split: option.splits)

lemma skip_when_present:
  assumes "path_exists fs p" "already_present fs p d"
  shows "copy_mod_item p d True ts fs =
     (Inr False, fs,
      (if ts \<and> is_file fs p then [info ''Modified'' []] else []) @
      [info ''Skipping (already exists)'' [path_name p]])"
proof (cases "is_file fs p")
  case True
  with assms show ?thesis
    by (simp add: copy_mod_item_def copy_mod_file_def already_present_def said_def)
next
  case False
  with assms(1) have "is_dir fs p" by (simp add: exists_iff)
  then obtain b where b: "has_structure fs p = Inr b" using has_structure_dir by blast
  with assms False show ?thesis
    by (cases b)
       (simp_all add: copy_mod_item_def copy_mod_folder_def copy_mod_structured_def
          already_present_def said_def)
qed

lemma quiet_noop:
  assumes "quiet p d fs"
  shows "\<exists>out. copy_mod_item p d True ts fs = (Inr False, fs, out)"
proof (cases "path_exists fs p")
  case True
  with assms skip_when_present [of fs p d ts] show ?thesis by (simp add: quiet_def)
next
  case False
  then show ?thesis by (simp add: copy_mod_item_def)
qed

lemma has_existing_later:
  assumes he: "has_existing fs p (g @ [d]) = Inr True"
    and same: "\<And>q. prefix p q \<Longrightarrow> fs' q = fs q"
    and k: "keeps (g @ [d]) fs fs'" and dir: "is_dir fs (g @ [d])"
  shows "has_existing fs' p (g @ [d]) = Inr True"
proof -
  from he obtain sub items where f: "find_subdir_case_insensitive fs p ''Mods'' = Inr (Some sub)"
    and it: "iterdir fs sub = Inr items"
    and ex: "list_ex (\<lambda>item. path_exists fs (joinpath (g @ [d]) (path_name item))) items"
    by (auto simp: has_existing_def split: sum.splits option.splits)
  from f have "prefix p sub" by (rule find_subdir_Some)
  with same have "fs' sub = fs sub" by simp
  with it have it': "iterdir fs' sub = Inr items" by (simp add: iterdir_cong [of fs' sub fs])
  from f same have f': "find_subdir_case_insensitive fs' p ''Mods'' = Inr (Some sub)"
    by (simp add: find_subdir_cong [of p fs' fs])
  from ex obtain item where i: "item \<in> set items"
    "path_exists fs (joinpath (g @ [d]) (path_name item))"
    by (auto simp: list_ex_iff)
  from iterdir_items(2) [OF it i(1)] i(2) have "path_exists fs ((g @ [d]) @ [path_name item])"
    by (simp add: joinpath_snoc)
  with k dir have "path_exists fs' ((g @ [d]) @ [path_name item])" by (simp add: keeps_def)
  with iterdir_items(2) [OF it i(1)] have "path_exists fs' (joinpath (g @ [d]) (path_name item))"
    by (simp add: joinpath_snoc)
  with i(1) have "list_ex (\<lambda>item. path_exists fs' (joinpath (g @ [d]) (path_name item))) items"
    by (auto simp: list_ex_iff)
  with f' it' show ?thesis by (simp add: has_existing_def)
qed

lemma evolves_source:
  assumes "evolves g d fs fs'" "\<not> prefix p g" "\<not> prefix g p" "prefix p q"
  shows "fs' q = fs q"
  using assms apart_below(1,2) [of p g q] by (simp add: evolves_def)

lemma quiet_later:
  assumes q: "quiet p (g @ [d]) fs" and ev: "evolves g d fs fs'" and dir: "is_dir fs (g @ [d])"
    and ap: "\<not> prefix p g" "\<not> prefix g p" and n: "path_name p \<noteq> []"
  shows "quiet p (g @ [d]) fs'"
proof -
  have same: "\<And>q. prefix p q \<Longrightarrow> fs' q = fs q"
    using ev ap by (rule evolves_source)
  then have p: "fs' p = fs p" by simp
  from ev have k: "keeps (g @ [d]) fs fs'" by (simp add: evolves_def)
  show ?thesis
  proof (cases "path_exists fs p")
    case False
    with p show ?thesis by (simp add: quiet_def path_exists_def)
  next
    case True
    with q have pr: "already_present fs p (g @ [d])" by (simp add: quiet_def)
    have hs: "has_structure fs' p = has_structure fs p" using same by (rule has_structure_cong)
    have "already_present fs' p (g @ [d])"
    proof (cases "is_file fs p \<or> has_structure fs p = Inr False")
      case True
      with pr n have "path_exists fs ((g @ [d]) @ [path_name p])"
        by (simp add: already_present_def joinpath_snoc)
      with k dir have "path_exists fs' ((g @ [d]) @ [path_name p])" by (simp add: keeps_def)
      with True p hs n show ?thesis by (simp add: already_present_def joinpath_snoc is_file_def)
    next
      case False
      with pr have "has_existing fs p (g @ [d]) = Inr True" by (simp add: already_present_def)
      then have "has_existing fs' p (g @ [d]) = Inr True"
        using same k dir by (rule has_existing_later)
      with False p hs show ?thesis by (simp add: already_present_def is_file_def)
    qed
    then show ?thesis by (simp add: quiet_def)
  qed
qed

lemma copy_root_items:
  assumes "copy_root p nm dst False fs = (r, fs1, out)"
    and "find_subdir_case_insensitive fs p nm = Inr (Some sub)" and "iterdir fs sub = Inr items"
  shows "copy_entries items dst fs = (fs1, out)" and "r = Inr ()"
  using assms by (auto simp: copy_root_def andthen_def split: prod.splits)

lemma copy_structured_mods_made:
  assumes cs: "copy_structured_mod p (g @ [d]) fs = (Inr u, fs', out)"
    and mf: "mods_root_filled fs p" and dir: "is_dir fs (g @ [d])"
    and ap: "\<not> prefix p g" "\<not> prefix g p"
  shows "has_existing fs' p (g @ [d]) = Inr True"
proof -
  from mf obtain sub items item where f: "find_subdir_case_insensitive fs p ''Mods'' = Inr (Some sub)"
    and it: "iterdir fs sub = Inr items" and i: "item \<in> set items" "path_exists fs item"
    by (auto simp: mods_root_filled_def)
  from f have ex: "path_exists fs p"
    by (auto simp: find_subdir_case_insensitive_def split: if_splits)
  from f have sub: "prefix p sub" by (rule find_subdir_Some)
  have root: "evolves g d a b" if "copy_root p nm (g @ [x]) c a = (r', b, o')" for nm x c a b r' o'
    using copy_root_effect [OF that ap] by (rule outside_evolves)
  from cs ex obtain o1 where
    "andthen (copy_root p ''Mods'' (g @ [d]) False fs)
       (\<lambda>u fs1. andthen (copy_root p ''Plugins'' (g @ [''Plugins'']) True fs1)
          (\<lambda>u fs2. copy_root p ''UserLibs'' (g @ [''UserLibs'']) True fs2)) = (Inr u, fs', o1)"
    by (auto simp: copy_structured_mod_def path_parent_def joinpath_def elim: saidE)
  then obtain x fs1 o2 o3 where m: "copy_root p ''Mods'' (g @ [d]) False fs = (Inr x, fs1, o2)"
    and rest: "andthen (copy_root p ''Plugins'' (g @ [''Plugins'']) True fs1)
          (\<lambda>u fs2. copy_root p ''UserLibs'' (g @ [''UserLibs'']) True fs2) = (Inr u, fs', o3)"
    by (auto elim: andthenE)
  from rest obtain y fs2 o4 o5 where pl: "copy_root p ''Plugins'' (g @ [''Plugins'']) True fs1 = (Inr y, fs2, o4)"
    and ul: "copy_root p ''UserLibs'' (g @ [''UserLibs'']) True fs2 = (Inr u, fs', o5)"
    by (auto elim: andthenE)
  from root [OF pl] root [OF ul] have ev2: "evolves g d fs1 fs'" by (rule evolves_trans)
  from root [OF m] have ev1: "evolves g d fs fs1" .
  from ev1 ev2 have ev: "evolves g d fs fs'" by (rule evolves_trans)
  from copy_root_items(1) [OF m f it] have ce: "copy_entries items (g @ [d]) fs = (fs1, o2)" .
  have "\<forall>item\<in>set items. \<not> prefix (g @ [d]) item \<and> \<not> prefix item (g @ [d]) \<and> path_name item \<noteq> []"
  proof
    fix item assume "item \<in> set items"
    from iterdir_items [OF it this] sub have "prefix p item" "path_name item \<noteq> []"
      by (auto intro: prefix_order.trans)
    with apart_below(3,4) [OF ap, of item d]
    show "\<not> prefix (g @ [d]) item \<and> \<not> prefix item (g @ [d]) \<and> path_name item \<noteq> []" by simp
  qed
  from copy_entries_effect [OF ce this] dir i
  have "path_exists fs1 ((g @ [d]) @ [path_name item])" by blast
  moreover from ev1 dir have "is_dir fs1 (g @ [d])" by (simp add: evolves_def keeps_def)
  ultimately have made: "path_exists fs' ((g @ [d]) @ [path_name item])"
    using ev2 by (simp add: evolves_def keeps_def)
  have same: "\<And>q. prefix p q \<Longrightarrow> fs' q = fs q" using ev ap by (rule evolves_source)
  with sub have "fs' sub = fs sub" by simp
  with it have it': "iterdir fs' sub = Inr items" by (simp add: iterdir_cong [of fs' sub fs])
  from f same have f': "find_subdir_case_insensitive fs' p ''Mods'' = Inr (Some sub)"
    by (simp add: find_subdir_cong [of p fs' fs])
  from made iterdir_items(2) [OF it i(1)]
  have "path_exists fs' (joinpath (g @ [d]) (path_name item))"
    by (simp add: joinpath_snoc)
  with i(1) have "list_ex (\<lambda>item. path_exists fs' (joinpath (g @ [d]) (path_name item))) items"
    by (auto simp: list_ex_iff)
  with f' it' show ?thesis by (simp add: has_existing_def)
qed

lemma quiet_after:
  assumes ci: "copy_mod_item p (g @ [d]) True ts fs = (Inr b, fs', out)"
    and dir: "is_dir fs (g @ [d])"
    and ap: "\<not> prefix p g" "\<not> prefix g p" and n: "path_name p \<noteq> []"
    and lay: "has_structure fs p = Inr True \<Longrightarrow> mods_root_filled fs p"
  shows "quiet p (g @ [d]) fs'"
proof (cases "quiet p (g @ [d]) fs")
  case True
  with quiet_noop [of p "g @ [d]" fs ts] ci show ?thesis by auto
next
  case False
  then have ex: "path_exists fs p" and np: "\<not> already_present fs p (g @ [d])"
    by (simp_all add: quiet_def)
  let ?t = "g @ [d, path_name p]"
  from ap(2) have npt: "\<not> prefix ?t p"
    using not_prefix_snoc [of "g @ [d]" p "path_name p"] not_prefix_snoc [of g p d] by simp
  then have ne: "p \<noteq> ?t" by auto
  from ci ap n have ev: "evolves g d fs fs'" by (rule copy_mod_item_evolves)
  have same: "\<And>q. prefix p q \<Longrightarrow> fs' q = fs q" using ev ap by (rule evolves_source)
  then have p: "fs' p = fs p" by simp
  have hs: "has_structure fs' p = has_structure fs p" using same by (rule has_structure_cong)
  have "already_present fs' p (g @ [d])"
  proof (cases "is_file fs p")
    case True
    with np n have absent: "\<not> path_exists fs ?t" by (simp add: already_present_def joinpath_snoc)
    then have "\<not> is_dir fs ?t" by (simp add: exists_iff)
    with True dir ne obtain fs2 where c: "copy2 fs p ?t = Inr fs2"
      using copy2_ok [of fs p ?t] by (auto simp: butlast_append)
    with ci ex True absent n have "fs' = fs2"
      by (simp add: copy_mod_item_def copy_mod_file_def said_def joinpath_snoc)
    with copy2_written(1) [OF c] \<open>\<not> is_dir fs ?t\<close> ex have "path_exists fs' ?t"
      by (simp add: path_exists_def)
    with True p n show ?thesis by (simp add: already_present_def joinpath_snoc is_file_def)
  next
    case nf: False
    with ex have pd: "is_dir fs p" by (simp add: exists_iff)
    then obtain s where s: "has_structure fs p = Inr s" using has_structure_dir by blast
    show ?thesis
    proof (cases s)
      case False
      with np s n have absent: "\<not> path_exists fs ?t" by (simp add: already_present_def joinpath_snoc)
      with pd dir obtain fs2 where c: "copytree fs p ?t = Inr fs2"
        using copytree_ok [of fs p ?t] by (auto simp: butlast_append)
      with ci ex nf s False absent n have "fs' = fs2"
        by (simp add: copy_mod_item_def copy_mod_folder_def replace_tree_def attempt_def said_def
            joinpath_snoc)
      with copytree_copied [OF c, of ?t] ex have "path_exists fs' ?t"
        by (simp add: path_exists_def)
      with False s hs n show ?thesis by (simp add: already_present_def joinpath_snoc)
    next
      case True
      with np s nf have he: "has_existing fs p (g @ [d]) \<noteq> Inr True" by (simp add: already_present_def)
      from ci ex nf s True obtain o1 where "copy_mod_structured p (g @ [d]) True fs = (Inr b, fs', o1)"
        by (auto simp: copy_mod_item_def elim: saidE)
      with he obtain u o2 where "copy_structured_mod p (g @ [d]) fs = (Inr u, fs', o2)"
        by (auto simp: copy_mod_structured_def split: sum.splits bool.splits elim!: saidE andthenE)
      then have "has_existing fs' p (g @ [d]) = Inr True"
        using lay s True dir ap by (intro copy_structured_mods_made [of p g d fs u fs' o2]) simp_all
      with s True hs p nf show ?thesis by (simp add: already_present_def is_file_def)
    qed
  qed
  then show ?thesis by (simp add: quiet_def)
qed

lemma mods_root_filled_cong:
  assumes "\<And>q. prefix p q \<Longrightarrow> fs' q = fs q"
  shows "mods_root_filled fs' p = mods_root_filled fs p"
proof -
  have one: "mods_root_filled b p" if mf: "mods_root_filled a p"
    and same: "\<And>q. prefix p q \<Longrightarrow> b q = a q" for a b
  proof -
    from mf obtain sub items item where f: "find_subdir_case_insensitive a p ''Mods'' = Inr (Some sub)"
      and it: "iterdir a sub = Inr items" and i: "item \<in> set items" "path_exists a item"
      by (auto simp: mods_root_filled_def)
    from f have sub: "prefix p sub" by (rule find_subdir_Some)
    with same have "b sub = a sub" by simp
    with it have it': "iterdir b sub = Inr items" by (simp add: iterdir_cong [of b sub a])
    from f same have f': "find_subdir_case_insensitive b p ''Mods'' = Inr (Some sub)"
      by (simp add: find_subdir_cong [of p b a])
    from iterdir_items(3) [OF it i(1)] sub have "prefix p item" by (auto intro: prefix_order.trans)
    with same i(2) have "path_exists b item" by (simp add: path_exists_def)
    with f' it' i(1) show ?thesis by (auto simp: mods_root_filled_def)
  qed
  from one [of fs fs'] one [of fs' fs] assms show ?thesis by auto
qed

lemma copy_mods_loop_first:
  assumes "copy_mods_loop ps (g @ [d]) False ts n fs = (Inr n', fs', out)"
    and "is_dir fs (g @ [d])"
    and "\<forall>p\<in>set ps. \<not> prefix p g \<and> \<not> prefix g p \<and> path_name p \<noteq> [] \<and>
           (has_structure fs p = Inr True \<longrightarrow> mods_root_filled fs p)"
  shows "evolves g d fs fs' \<and> (\<forall>p\<in>set ps. quiet p (g @ [d]) fs')"
  using assms
proof (induction ps arbitrary: n fs out)
  case Nil
  then show ?case by simp
next
  case (Cons p ps)
  from Cons.prems(3) have p: "\<not> prefix p g" "\<not> prefix g p" "path_name p \<noteq> []"
    "has_structure fs p = Inr True \<Longrightarrow> mods_root_filled fs p"
    by simp_all
  from Cons.prems(1) obtain b fs1 o1 o2 where
    ci: "copy_mod_item p (g @ [d]) True ts fs = (Inr b, fs1, o1)"
    and rest: "copy_mods_loop ps (g @ [d]) False ts (if b then n + 1 else n) fs1 = (Inr n', fs', o2)"
    by (auto elim!: andthenE)
  from ci p(1-3) have ev1: "evolves g d fs fs1" by (rule copy_mod_item_evolves)
  from ci Cons.prems(2) p have q1: "quiet p (g @ [d]) fs1" by (rule quiet_after)
  from ev1 Cons.prems(2) have d1: "is_dir fs1 (g @ [d])" by (simp add: evolves_def keeps_def)
  have "\<forall>q\<in>set ps. \<not> prefix q g \<and> \<not> prefix g q \<and> path_name q \<noteq> [] \<and>
           (has_structure fs1 q = Inr True \<longrightarrow> mods_root_filled fs1 q)"
  proof
    fix q assume q: "q \<in> set ps"
    with Cons.prems(3) have a: "\<not> prefix q g" "\<not> prefix g q" "path_name q \<noteq> []"
      "has_structure fs q = Inr True \<longrightarrow> mods_root_filled fs q"
      by simp_all
    have same: "\<And>r. prefix q r \<Longrightarrow> fs1 r = fs r" using ev1 a(1,2) by (rule evolves_source)
    from a has_structure_cong [of q fs1 fs, OF same] mods_root_filled_cong [of q fs1 fs, OF same]
    show "\<not> prefix q g \<and> \<not> prefix g q \<and> path_name q \<noteq> [] \<and>
           (has_structure fs1 q = Inr True \<longrightarrow> mods_root_filled fs1 q)"
      by simp
  qed
  from Cons.IH [OF rest d1 this] have IH: "evolves g d fs1 fs'" "\<forall>p\<in>set ps. quiet p (g @ [d]) fs'"
    by simp_all
  from q1 IH(1) d1 p(1-3) have "quiet p (g @ [d]) fs'" by (rule quiet_later)
  with IH ev1 show ?case by (auto intro: evolves_trans)
qed

lemma copy_mods_loop_quiet:
  assumes "\<forall>p\<in>set ps. quiet p dst fs"
  shows "\<exists>out. copy_mods_loop ps dst False ts n fs = (Inr n, fs, out)"
  using assms
proof (induction ps)
  case Nil
  then show ?case by simp
next
  case (Cons p ps)
  then obtain o1 o2 where "copy_mod_item p dst True ts fs = (Inr False, fs, o1)"
    "copy_mods_loop ps dst False ts n fs = (Inr n, fs, o2)"
    using quiet_noop [of p dst fs ts] by auto
  then show ?case by (simp add: andthen_def)
qed

lemma copy2_not_file: "\<not> is_file fs src \<Longrightarrow> \<exists>e. copy2 fs src dst = Inl e"
  by (auto simp: copy2_def Let_def is_file_def split: option.splits entry.splits)

lemma copy2_evolves:
  assumes c: "copy2 fs src (g @ [s]) = Inr fs'"
  shows "evolves g d fs fs'"
  unfolding evolves_def keeps_def
proof (intro conjI allI impI)
  fix q assume "\<not> prefix g q \<and> \<not> prefix q g"
  with copy2_touches [OF c] show "fs' q = fs q"
    by (simp add: touches_def not_prefix_snoc)
qed (simp_all add: copy2_kinds [OF c])

lemma copy_starter_evolves:
  assumes "copy_starter src (g @ [d]) force c fs = (r, fs', out)" and "path_name src \<noteq> []"
  shows "evolves g d fs fs'"
proof (cases "copy2 fs src (g @ [path_name src])")
  case (Inl e)
  with assms have "fs' = fs"
    by (auto simp: copy_starter_def Let_def path_parent_def joinpath_snoc split: if_splits)
  then show ?thesis by simp
next
  case (Inr fs2)
  with assms have "fs' = fs \<or> fs' = fs2"
    by (auto simp: copy_starter_def Let_def path_parent_def joinpath_snoc split: if_splits)
  with copy2_evolves [OF Inr] show ?thesis by auto
qed

lemma copy_starter_after:
  assumes cs: "copy_starter src (g @ [d]) False c fs = (r, fs', out)" and n: "path_name src \<noteq> []"
    and g: "is_dir fs g" and ap: "\<not> prefix g src"
  shows "starter_quiet src g fs'"
proof (cases "starter_quiet src g fs")
  case True
  then have "path_exists fs (g @ [path_name src]) \<or> (\<exists>e. copy2 fs src (g @ [path_name src]) = Inl e)"
    using copy2_not_file [of fs src "g @ [path_name src]"]
    by (auto simp: starter_quiet_def exists_iff)
  with cs n have "fs' = fs"
    by (auto simp: copy_starter_def Let_def path_parent_def joinpath_snoc split: if_splits)
  with True show ?thesis by simp
next
  case False
  then have f: "is_file fs src" and absent: "\<not> path_exists fs (g @ [path_name src])"
    by (simp_all add: starter_quiet_def)
  have "src \<noteq> g @ [path_name src]"
  proof
    assume "src = g @ [path_name src]"
    then have "prefix g src" by (metis prefixI)
    with ap show False by simp
  qed
  with f absent g obtain fs2 where c: "copy2 fs src (g @ [path_name src]) = Inr fs2"
    using copy2_ok [of fs src "g @ [path_name src]"] by (auto simp: exists_iff)
  with cs n absent have "fs' = fs2"
    by (simp add: copy_starter_def Let_def path_parent_def joinpath_snoc)
  with copy2_written(1) [OF c] absent f show ?thesis
    by (auto simp: starter_quiet_def exists_iff is_file_def)
qed

lemma copy_starter_quiet:
  assumes "starter_quiet src g fs" "path_exists fs src" "path_name src \<noteq> []"
  shows "\<exists>out. copy_starter src (g @ [d]) False c fs = (Inr c, fs, out)"
proof (cases "path_exists fs (g @ [path_name src])")
  case True
  with assms(3) show ?thesis
    by (simp add: copy_starter_def Let_def path_parent_def joinpath_snoc)
next
  case False
  with assms have "\<not> is_file fs src" by (simp add: starter_quiet_def)
  then obtain e where "copy2 fs src (g @ [path_name src]) = Inl e"
    using copy2_not_file by blast
  with False assms(3) show ?thesis
    by (simp add: copy_starter_def Let_def path_parent_def joinpath_snoc)
qed

lemma starter_quiet_later:
  assumes "starter_quiet src g fs" "evolves g d fs fs'" "is_dir fs g"
    "\<not> prefix src g" "\<not> prefix g src"
  shows "starter_quiet src g fs'"
proof -
  from assms(2,4,5) have "fs' src = fs src" by (rule evolves_source) simp
  moreover from assms(2,3) have "path_exists fs (g @ [path_name src]) \<Longrightarrow> path_exists fs' (g @ [path_name src])"
    by (simp add: evolves_def keeps_def)
  ultimately show ?thesis using assms(1)
    by (auto simp: starter_quiet_def path_exists_def is_file_def)
qed

lemma mkdir_p_ok:
  assumes "is_dir fs (butlast p)" "\<not> is_file fs p"
  shows "\<exists>fs'. mkdir_p fs p = Inr fs'"
proof (cases "is_dir fs p")
  case True
  then show ?thesis by (simp add: mkdir_p_dir)
next
  case False
  with assms have "p \<noteq> []" "\<not> path_exists fs p" by (auto simp: exists_iff)
  with False assms(1) show ?thesis
    by (subst mkdir_p.simps) (simp add: mkdir_p_dir)
qed

lemma copy_entries_frame:
  assumes "copy_entries items d fs = (fs', out)"
    and "\<forall>item\<in>set items. path_name item \<noteq> [] \<and> path_name item \<noteq> n"
  shows "fs' (d @ n # r) = fs (d @ n # r)"
  using assms
proof (induction items arbitrary: fs out)
  case Nil
  then show ?case by simp
next
  case (Cons y items)
  from Cons.prems(1) obtain r1 fs1 o1 o2 where ce: "copy_entry y d fs = (r1, fs1, o1)"
    and rest: "copy_entries items d fs1 = (fs', o2)"
    by (rule copy_entries_Cons)
  from Cons.prems(2) have n: "path_name y \<noteq> []" "path_name y \<noteq> n" by simp_all
  from copy_entry_touches [OF ce] n(1) have "touches (d @ [path_name y]) fs fs1"
    by (simp add: joinpath_snoc)
  moreover from n(2) have "\<not> prefix (d @ [path_name y]) (d @ n # r)" by simp
  moreover have "\<not> prefix (d @ n # r) d" by (simp add: prefix_def)
  ultimately have "fs1 (d @ n # r) = fs (d @ n # r)"
    unfolding touches_def by (simp add: butlast_append)
  moreover from Cons.IH [OF rest] Cons.prems(2) have "fs' (d @ n # r) = fs1 (d @ n # r)" by simp
  ultimately show ?case by simp
qed

lemma copy_entries_file:
  assumes "copy_entries items d fs = (fs', out)"
    and "\<forall>item\<in>set items. path_name item \<noteq> [] \<and> (path_name item = path_name x \<longrightarrow> item = x)"
    and "\<not> prefix d x" "\<not> prefix x d" "path_name x \<noteq> []"
    and "is_file fs x" "is_dir fs d"
    and "x \<in> set items \<and> \<not> is_dir fs (d @ [path_name x]) \<or> fs (d @ [path_name x]) = fs x"
  shows "fs' (d @ [path_name x]) = fs x"
  using assms(1,2,6,7,8)
proof (induction items arbitrary: fs out)
  case Nil
  then show ?case by simp
next
  case (Cons y items)
  let ?t = "d @ [path_name x]"
  from Cons.prems(1) obtain r1 fs1 o1 o2 where ce: "copy_entry y d fs = (r1, fs1, o1)"
    and rest: "copy_entries items d fs1 = (fs', o2)"
    by (rule copy_entries_Cons)
  from Cons.prems(2) have ny: "path_name y \<noteq> []" by simp
  from Cons.prems(2) have names: "\<forall>item\<in>set items. path_name item \<noteq> [] \<and>
      (path_name item = path_name x \<longrightarrow> item = x)" by simp
  from copy_entry_touches [OF ce] ny have t: "touches (d @ [path_name y]) fs fs1"
    by (simp add: joinpath_snoc)
  from assms(3) have "\<not> prefix (d @ [path_name y]) x"
    using not_prefix_snoc [of d x "path_name y"] by simp
  with t assms(4) have x: "fs1 x = fs x"
    unfolding touches_def by (simp add: butlast_append)
  with Cons.prems(3) have f1: "is_file fs1 x" by (simp add: is_file_def)
  have d1: "is_dir fs1 d"
  proof (cases "y = x")
    case True
    with ce assms(3) ny have "keeps d fs fs1" by (auto intro: copy_entry_keeps)
    with Cons.prems(4) show ?thesis by (simp add: keeps_def)
  next
    case False
    from t have "outside d fs fs1" by (rule touches_outside)
    with Cons.prems(4) show ?thesis by (simp add: outside_def)
  qed
  have nd: "\<not> is_dir fs ?t"
    using Cons.prems(5,3) by (auto simp: is_dir_def is_file_def split: option.splits entry.splits)
  show ?case
  proof (cases "y = x")
    case True
    have "x \<noteq> ?t"
    proof
      assume "x = ?t"
      then have "prefix d x" by (metis prefixI)
      with assms(3) show False by simp
    qed
    with Cons.prems(3,4) nd obtain fs2 where c: "copy2 fs x ?t = Inr fs2"
      using copy2_ok [of fs x ?t] by auto
    with ce True Cons.prems(3) assms(5) have "fs1 = fs2"
      by (simp add: copy_entry_def joinpath_snoc attempt_def)
    with copy2_written(1) [OF c] nd have "fs1 ?t = fs x" by simp
    with x have "fs1 ?t = fs1 x" by simp
    with Cons.IH [OF rest names f1 d1] x show ?thesis by simp
  next
    case False
    with Cons.prems(2) have "path_name y \<noteq> path_name x" by auto
    then have "\<not> prefix (d @ [path_name y]) ?t" by simp
    moreover have "\<not> prefix ?t d" by (simp add: prefix_def)
    ultimately have same: "fs1 ?t = fs ?t"
      using t unfolding touches_def by (simp add: butlast_append)
    from Cons.prems(5) False have "x \<in> set items \<and> \<not> is_dir fs ?t \<or> fs ?t = fs x" by auto
    with same x have "x \<in> set items \<and> \<not> is_dir fs1 ?t \<or> fs1 ?t = fs1 x"
      by (auto simp: is_dir_def)
    with Cons.IH [OF rest names f1 d1] x show ?thesis by simp
  qed
qed

lemma copy_root_created:
  assumes "copy_root p nm dst True fs = (r, fs2, out)"
    and "find_subdir_case_insensitive fs p nm = Inr (Some sub)" and "mkdir_p fs dst = Inr fs1"
    and "iterdir fs1 sub = Inr items"
  shows "copy_entries items dst fs1 = (fs2, out)" and "r = Inr ()"
  using assms by (auto simp: copy_root_def andthen_def attempt_def split: prod.splits)

lemma iterdir_names:
  assumes "iterdir fs p = Inr items" "x \<in> set items"
  shows "\<forall>item\<in>set items. path_name item \<noteq> [] \<and> (path_name item = path_name x \<longrightarrow> item = x)"
proof
  fix item assume "item \<in> set items"
  from iterdir_items(1) [OF assms(1) this] iterdir_items(1) [OF assms]
  show "path_name item \<noteq> [] \<and> (path_name item = path_name x \<longrightarrow> item = x)"
    by (auto simp: path_name_def)
qed

lemma fan_out:
  assumes cs: "copy_structured_mod a (g @ [d]) fs = (res, fs', out)"
    and mods: "find_subdir_case_insensitive fs a ''Mods'' = Inr (Some m)" "iterdir fs m = Inr ms"
    and plugins: "find_subdir_case_insensitive fs a ''Plugins'' = Inr (Some pl)"
      "iterdir fs pl = Inr ps"
    and ap: "\<not> prefix a g" "\<not> prefix g a"
    and dst: "is_dir fs g" "is_dir fs (g @ [d])" "\<not> is_file fs (g @ [''Plugins''])"
    and d: "d \<noteq> ''Plugins''" "d \<noteq> ''UserLibs''"
  shows "foo \<in> set ms \<Longrightarrow> is_file fs foo \<Longrightarrow> \<not> is_dir fs (g @ [d, path_name foo]) \<Longrightarrow>
           fs' (g @ [d, path_name foo]) = fs foo"
    and "bar \<in> set ps \<Longrightarrow> is_file fs bar \<Longrightarrow> \<not> is_dir fs (g @ [''Plugins'', path_name bar]) \<Longrightarrow>
           fs' (g @ [''Plugins'', path_name bar]) = fs bar"
    and "\<forall>item\<in>set ms. path_name item \<noteq> n \<Longrightarrow> fs' (g @ d # n # r) = fs (g @ d # n # r)"
    and "\<forall>item\<in>set ps. path_name item \<noteq> n \<Longrightarrow>
           fs' (g @ ''Plugins'' # n # r) = fs (g @ ''Plugins'' # n # r)"
proof -
  let ?P = "g @ [''Plugins'']" and ?U = "g @ [''UserLibs'']"
  from mods(1) have ex: "path_exists fs a"
    by (auto simp: find_subdir_case_insensitive_def split: if_splits)
  from mods(1) have m: "prefix a m" by (rule find_subdir_Some)
  from plugins(1) have pl: "prefix a pl" by (rule find_subdir_Some)
  have below: "prefix a item" if "item \<in> set ms \<or> item \<in> set ps" for item
    using that iterdir_items(3) [OF mods(2), of item] iterdir_items(3) [OF plugins(2), of item] m pl
    by (auto intro: prefix_order.trans)
  from cs ex obtain o0 where
    "andthen (copy_root a ''Mods'' (g @ [d]) False fs)
       (\<lambda>u fs1. andthen (copy_root a ''Plugins'' ?P True fs1)
          (\<lambda>u fs2. copy_root a ''UserLibs'' ?U True fs2)) = (res, fs', o0)"
    by (auto simp: copy_structured_mod_def path_parent_def joinpath_def elim: saidE)
  moreover obtain r1 fs1 o1 where cm: "copy_root a ''Mods'' (g @ [d]) False fs = (r1, fs1, o1)"
    by (metis prod_cases3)
  moreover from copy_root_items [OF cm mods]
  have em: "copy_entries ms (g @ [d]) fs = (fs1, o1)" and "r1 = Inr ()" by simp_all
  ultimately obtain o2 where "andthen (copy_root a ''Plugins'' ?P True fs1)
          (\<lambda>u fs2. copy_root a ''UserLibs'' ?U True fs2) = (res, fs', o2)"
    by (auto elim: andthenE)
  moreover obtain r2 fs2 o3 where cp: "copy_root a ''Plugins'' ?P True fs1 = (r2, fs2, o3)"
    by (metis prod_cases3)
  note om = copy_root_effect [OF cm ap]
  have frameM: "fs1 q = fs q" if "\<not> prefix (g @ [d]) q" "\<not> prefix q (g @ [d])" for q
    using om(1) that by (simp add: outside_def)
  have srcM: "fs1 q = fs q" if "prefix a q" for q
    using apart_below(3,4) [OF ap that, of d] by (rule frameM)
  have g1: "is_dir fs1 g"
    using outside_keeps_parent [OF om(1)] dst(1) by (simp add: keeps_def)
  from d(1) have "fs1 ?P = fs ?P" by (intro frameM) simp_all
  with dst(3) have "\<not> is_file fs1 ?P" by (simp add: is_file_def)
  with g1 obtain fs1' where mk: "mkdir_p fs1 ?P = Inr fs1'"
    using mkdir_p_ok [of fs1 ?P] by auto
  note mki = mkdir_p_Inr [OF mk]
  have frameK: "fs1' q = fs1 q" if "\<not> prefix q ?P" for q
    using mki that by simp
  have srcK: "fs1' q = fs q" if "prefix a q" for q
    using apart_below(4) [OF ap that, of "''Plugins''"] srcM [OF that] by (simp add: frameK)
  from plugins(1) srcM have fp: "find_subdir_case_insensitive fs1 a ''Plugins'' = Inr (Some pl)"
    by (simp add: find_subdir_cong [of a fs1 fs])
  from plugins(2) srcK [OF pl] have ip: "iterdir fs1' pl = Inr ps"
    by (simp add: iterdir_cong [of fs1' pl fs])
  from copy_root_created [OF cp fp mk ip]
  have ep: "copy_entries ps ?P fs1' = (fs2, o3)" and "r2 = Inr ()" by simp_all
  ultimately obtain o4 where cu: "copy_root a ''UserLibs'' ?U True fs2 = (res, fs', o4)"
    using cp by (auto elim: andthenE)
  have frameP: "fs2 q = fs1 q" if "\<not> prefix ?P q" "\<not> prefix q ?P" for q
    using copy_root_effect(1) [OF cp ap] that by (simp add: outside_def)
  have frameU: "fs' q = fs2 q" if "\<not> prefix ?U q" "\<not> prefix q ?U" for q
    using copy_root_effect(1) [OF cu ap] that by (simp add: outside_def)
  {
    assume foo: "foo \<in> set ms" "is_file fs foo" "\<not> is_dir fs (g @ [d, path_name foo])"
    from below foo(1) have b: "prefix a foo" by simp
    from iterdir_items(2) [OF mods(2) foo(1)] have n: "path_name foo \<noteq> []" .
    from copy_entries_file [OF em iterdir_names [OF mods(2) foo(1)] apart_below(3,4) [OF ap b] n
        foo(2) dst(2)] foo(1,3)
    have "fs1 (g @ [d, path_name foo]) = fs foo" by simp
    moreover from d(1) have "fs2 (g @ [d, path_name foo]) = fs1 (g @ [d, path_name foo])"
      by (intro frameP) simp_all
    moreover from d(2) have "fs' (g @ [d, path_name foo]) = fs2 (g @ [d, path_name foo])"
      by (intro frameU) simp_all
    ultimately show "fs' (g @ [d, path_name foo]) = fs foo" by simp
  }
  {
    assume bar: "bar \<in> set ps" "is_file fs bar" "\<not> is_dir fs (g @ [''Plugins'', path_name bar])"
    let ?t = "g @ [''Plugins'', path_name bar]"
    from below bar(1) have b: "prefix a bar" by simp
    from iterdir_items(2) [OF plugins(2) bar(1)] have n: "path_name bar \<noteq> []" .
    from bar(2) srcK [OF b] have f: "is_file fs1' bar" by (simp add: is_file_def)
    have "fs1' ?t = fs1 ?t" by (intro frameK) simp
    moreover from d(1) have "fs1 ?t = fs ?t" by (intro frameM) simp_all
    ultimately have nd: "\<not> is_dir fs1' ?t" using bar(3) by (simp add: is_dir_def)
    from mki have pd: "is_dir fs1' ?P" by simp
    from copy_entries_file [OF ep iterdir_names [OF plugins(2) bar(1)] apart_below(3,4) [OF ap b] n
        f pd] bar(1) nd
    have "fs2 ?t = fs1' bar" by simp
    moreover have "fs' ?t = fs2 ?t" by (intro frameU) simp_all
    ultimately show "fs' ?t = fs bar" using srcK [OF b] by simp
  }
  {
    assume no: "\<forall>item\<in>set ms. path_name item \<noteq> n"
    let ?q = "g @ d # n # r"
    have "\<forall>item\<in>set ms. path_name item \<noteq> [] \<and> path_name item \<noteq> n"
      using no iterdir_items(2) [OF mods(2)] by simp
    from copy_entries_frame [OF em this, of r] have "fs1 ?q = fs ?q" by simp
    moreover from d(1) have "fs2 ?q = fs1 ?q" by (intro frameP) simp_all
    moreover from d(2) have "fs' ?q = fs2 ?q" by (intro frameU) simp_all
    ultimately show "fs' ?q = fs ?q" by simp
  }
  {
    assume no: "\<forall>item\<in>set ps. path_name item \<noteq> n"
    let ?q = "g @ ''Plugins'' # n # r"
    have "\<forall>item\<in>set ps. path_name item \<noteq> [] \<and> path_name item \<noteq> n"
      using no iterdir_items(2) [OF plugins(2)] by simp
    from copy_entries_frame [OF ep this, of r] have "fs2 ?q = fs1' ?q" by simp
    moreover have "fs1' ?q = fs1 ?q" by (intro frameK) simp
    moreover from d(1) have "fs1 ?q = fs ?q" by (intro frameM) simp_all
    moreover have "fs' ?q = fs2 ?q" by (intro frameU) simp_all
    ultimately show "fs' ?q = fs ?q" by simp
  }
qed

lemma files_after_structured:
  "fst (snd (said es (andthen r (\<lambda>u fs'. (Inr True, fs', []))))) = fst (snd r)"
  by (cases r) (auto simp: said_def andthen_def split: sum.splits prod.splits)

lemma find_subdir_is_dir:
  assumes "find_subdir_case_insensitive fs p nm = Inr (Some sub)"
  shows "is_dir fs p"
proof -
  from assms obtain items where "iterdir fs p = Inr items"
    by (auto simp: find_subdir_case_insensitive_def split: if_splits sum.splits)
  then show ?thesis
    by (auto simp: iterdir_def is_dir_def split: option.splits entry.splits)
qed

lemma copy_mod_item_structured:
  assumes "find_subdir_case_insensitive fs a nm = Inr (Some sub)"
    and "has_structure fs a = Inr True"
    and "skip \<longrightarrow> has_existing fs a dst = Inr False"
  shows "copy_mod_item a dst skip ts fs =
           said [info ''Copying structured mod'' [path_name a]]
             (andthen (copy_structured_mod a dst fs) (\<lambda>u fs'. (Inr True, fs', [])))"
proof -
  from find_subdir_is_dir [OF assms(1)] have "path_exists fs a" "\<not> is_file fs a"
    by (auto simp: exists_iff dest: not_file_and_dir)
  with assms(2,3) show ?thesis
    by (auto simp: copy_mod_item_def copy_mod_structured_def said_def)
qed

lemma copy_root_returns:
  assumes "is_dir fs p" "is_dir fs g" "create \<longrightarrow> \<not> is_file fs (g @ [x])"
  shows "\<exists>fs' out. copy_root p nm (g @ [x]) create fs = (Inr (), fs', out)"
proof -
  from assms(1) obtain ns where p: "fs p = Some (Dir ns)" by (auto simp: is_dir_iff)
  show ?thesis
  proof (cases "find (\<lambda>item. is_dir fs item \<and> str_lower (path_name item) = str_lower nm)
                  (map (joinpath p) (filter (\<lambda>n. n \<noteq> []) ns))")
    case None
    with p show ?thesis by (simp add: copy_root_def find_subdir_Dir)
  next
    case (Some sub)
    with p have f: "find_subdir_case_insensitive fs p nm = Inr (Some sub)"
      by (simp add: find_subdir_Dir)
    from find_subdir_Some(2) [OF f] have sd: "is_dir fs sub" .
    obtain fs1 where mk: "(if create then attempt (mkdir_p fs (g @ [x])) fs else (Inr (), fs, []))
        = (Inr (), fs1, [])" and sd1: "is_dir fs1 sub"
    proof (cases create)
      case True
      with assms(2,3) obtain fs1 where m: "mkdir_p fs (g @ [x]) = Inr fs1"
        using mkdir_p_ok [of fs "g @ [x]"] by auto
      from mkdir_p_Inr [OF m] sd have "is_dir fs1 sub" by simp
      with that [of fs1] m True show ?thesis by (simp add: attempt_def)
    next
      case False
      with that [of fs] sd show ?thesis by simp
    qed
    from sd1 obtain items where "iterdir fs1 sub = Inr items"
      by (auto simp: is_dir_iff iterdir_def)
    with f mk show ?thesis
      by (cases "copy_entries items (g @ [x]) fs1") (simp add: copy_root_def andthen_def)
  qed
qed

lemma copy_structured_mod_returns:
  assumes "is_dir fs p" "is_dir fs g" "\<not> prefix p g" "\<not> prefix g p"
    and "\<not> is_file fs (g @ [''Plugins''])" "\<not> is_file fs (g @ [''UserLibs''])"
  shows "\<exists>fs' out. copy_structured_mod p (g @ [d]) fs = (Inr (), fs', out)"
proof -
  have step: "is_dir b p \<and> is_dir b g \<and> (\<forall>y. \<not> is_file a (g @ [y]) \<longrightarrow> \<not> is_file b (g @ [y]))"
    if "copy_root p nm (g @ [x]) c a = (r, b, out)" "is_dir a p" "is_dir a g" for nm x c a b r out
  proof -
    note o = copy_root_effect(1) [OF that(1) assms(3,4)]
    from assms(4) have "\<not> strict_prefix (g @ [x]) p"
      using not_prefix_snoc [of g p x] by (auto simp: strict_prefix_def)
    with o that(2) have "is_dir b p" unfolding outside_def by blast
    moreover from outside_keeps_parent [OF o] that(3) have "is_dir b g" by (simp add: keeps_def)
    moreover have "\<not> is_file a (g @ [y]) \<longrightarrow> \<not> is_file b (g @ [y])" for y
    proof -
      have "\<not> strict_prefix (g @ [x]) (g @ [y])" by (auto simp: strict_prefix_def)
      with o show ?thesis unfolding outside_def by blast
    qed
    ultimately show ?thesis by blast
  qed
  from copy_root_returns [OF assms(1,2), of False d "''Mods''"]
  obtain fs1 o1 where m: "copy_root p ''Mods'' (g @ [d]) False fs = (Inr (), fs1, o1)" by auto
  from step [OF m assms(1,2)] assms(5,6)
  have s1: "is_dir fs1 p" "is_dir fs1 g" "\<not> is_file fs1 (g @ [''Plugins''])"
    "\<not> is_file fs1 (g @ [''UserLibs''])" by blast+
  from copy_root_returns [OF s1(1,2), of True "''Plugins''" "''Plugins''"] s1(3)
  obtain fs2 o2 where pl: "copy_root p ''Plugins'' (g @ [''Plugins'']) True fs1 = (Inr (), fs2, o2)"
    by auto
  from step [OF pl s1(1,2)] s1(4)
  have s2: "is_dir fs2 p" "is_dir fs2 g" "\<not> is_file fs2 (g @ [''UserLibs''])" by blast+
  from copy_root_returns [OF s2(1,2), of True "''UserLibs''" "''UserLibs''"] s2(3)
  obtain fs3 o3 where ul: "copy_root p ''UserLibs'' (g @ [''UserLibs'']) True fs2 = (Inr (), fs3, o3)"
    by auto
  from assms(1) have "path_exists fs p" by (simp add: exists_iff)
  with m pl ul show ?thesis
    by (simp add: copy_structured_mod_def path_parent_def joinpath_def andthen_def said_def)
qed

lemma any_subdir_True:
  "any_subdir fs p ns = Inr True \<Longrightarrow> \<exists>nm sub. find_subdir_case_insensitive fs p nm = Inr (Some sub)"
  by (induction ns) (auto split: sum.splits option.splits)

lemma has_structure_True:
  assumes "has_structure fs p = Inr True"
  shows "is_dir fs p"
proof -
  from assms have "any_subdir fs p [''Mods'', ''Plugins'', ''UserLibs''] = Inr True"
    by (simp only: has_structure_def)
  from any_subdir_True [OF this] obtain nm sub
    where "find_subdir_case_insensitive fs p nm = Inr (Some sub)" by blast
  then show ?thesis by (rule find_subdir_is_dir)
qed

lemma copy_mod_item_not_skipped:
  assumes "has_structure fs a = Inr True"
    and "skip \<longrightarrow> has_existing fs a dst = Inr False"
  shows "copy_mod_item a dst skip ts fs =
           said [info ''Copying structured mod'' [path_name a]]
             (andthen (copy_structured_mod a dst fs) (\<lambda>u fs'. (Inr True, fs', [])))"
proof -
  from has_structure_True [OF assms(1)] have "path_exists fs a" "\<not> is_file fs a"
    by (auto simp: exists_iff dest: not_file_and_dir)
  with assms show ?thesis
    by (auto simp: copy_mod_item_def copy_mod_structured_def said_def)
qed

lemma has_existing_dir: "is_dir fs p \<Longrightarrow> \<exists>b. has_existing fs p d = Inr b"
proof -
  assume "is_dir fs p"
  then obtain ns where p: "fs p = Some (Dir ns)" by (auto simp: is_dir_iff)
  show ?thesis
  proof (cases "find_subdir_case_insensitive fs p ''Mods''")
    case (Inl e)
    with p show ?thesis by (simp add: find_subdir_Dir)
  next
    case (Inr r)
    show ?thesis
    proof (cases r)
      case None
      with Inr have "has_existing fs p d = Inr False" by (simp add: has_existing_def)
      then show ?thesis by blast
    next
      case (Some sub)
      with Inr find_subdir_Some(2) [of fs p "''Mods''" sub] obtain ms where "fs sub = Some (Dir ms)"
        by (auto simp: is_dir_iff)
      with Inr Some show ?thesis by (simp add: has_existing_def iterdir_Dir)
    qed
  qed
qed

lemma not_skipped_as_forced:
  assumes "path_exists fs p" "\<not> (skip \<and> already_present fs p d)"
  shows "copy_mod_item p d skip ts fs = copy_mod_item p d False ts fs"
proof (cases skip)
  case False
  then show ?thesis by simp
next
  case True
  with assms(2) have np: "\<not> already_present fs p d" by simp
  show ?thesis
  proof (cases "is_file fs p")
    case True
    with np show ?thesis by (simp add: already_present_def copy_mod_item_def copy_mod_file_def)
  next
    case False
    with assms(1) have dir: "is_dir fs p" by (simp add: exists_iff)
    from has_structure_dir [OF dir] obtain b where hs: "has_structure fs p = Inr b" by auto
    show ?thesis
    proof (cases b)
      case True
      from has_existing_dir [OF dir, of d] obtain c where he: "has_existing fs p d = Inr c" by auto
      with np hs True False have "\<not> c" by (auto simp: already_present_def)
      with he hs True False show ?thesis
        by (simp add: copy_mod_item_def copy_mod_structured_def)
    next
      case b: False
      with np hs False show ?thesis
        by (simp add: already_present_def copy_mod_item_def copy_mod_folder_def)
    qed
  qed
qed

lemma forced_False:
  assumes "copy_mod_item p d False ts fs = (Inr False, fs', out)" "path_exists fs p"
  shows "\<exists>e. last out = warn ''Failed to copy'' [path_name p, exn_name e]"
proof (cases "is_file fs p")
  case True
  with assms show ?thesis
    by (auto simp: copy_mod_item_def copy_mod_file_def said_def Let_def split: sum.splits)
next
  case False
  with assms(2) have dir: "is_dir fs p" by (simp add: exists_iff)
  from has_structure_dir [OF dir] obtain b where hs: "has_structure fs p = Inr b" by auto
  show ?thesis
  proof (cases b)
    case True
    with hs False assms show ?thesis
      by (auto simp: copy_mod_item_def copy_mod_structured_def said_def andthen_def
          split: prod.splits sum.splits)
  next
    case b: False
    with hs False assms show ?thesis
      by (auto simp: copy_mod_item_def copy_mod_folder_def said_def Let_def
          split: prod.splits sum.splits)
  qed
qed

lemma replace_tree_copied:
  assumes rt: "replace_tree src t fs = (Inr u, fs', out)"
    and ap: "\<not> prefix src (butlast t)" "\<not> prefix (butlast t) src" and t: "t \<noteq> []"
  shows "fs' (t @ r) = fs (src @ r)"
proof (cases "path_exists fs t")
  case False
  with rt have "copytree fs src t = Inr fs'"
    by (auto simp: replace_tree_def attempt_def split: sum.splits)
  from copytree_copied [OF this, of "t @ r"] show ?thesis by simp
next
  case True
  with rt obtain fs1 where rm: "rmtree fs t = Inr fs1" and ct: "copytree fs1 src t = Inr fs'"
    by (auto simp: replace_tree_def attempt_def andthen_def split: sum.splits)
  from copytree_copied [OF ct, of "t @ r"] have "fs' (t @ r) = fs1 (src @ r)" by simp
  moreover have "\<not> prefix t (src @ r)"
    using apart_below(3) [OF ap, of "src @ r" "last t"] t by simp
  moreover have "\<not> prefix (src @ r) (butlast t)"
    using apart_below(2) [OF ap, of "src @ r"] by simp
  ultimately show ?thesis using rmtree_touches [OF rm] by (simp add: touches_def)
qed

lemma deploy_files_total:
  assumes "deploy_files wd cfg fs = (Inr copied, fs', out)"
  shows "\<exists>n fs3 fs4 o1 o2.
           copy_addons wd cfg fs3 = (Inr n, fs4, o1) \<and>
           copy_item (resolve wd (Path (target cfg))) (resolve wd (Path (mods_dir cfg))) fs4
             = (Inr (), fs', o2) \<and>
           copied = n + 1"
proof -
  let ?D = "resolve wd (Path (mods_dir cfg))" and ?T = "resolve wd (Path (target cfg))"
  from assms have "andthen (ensure_dir ?D fs)
        (\<lambda>u fs1.
      andthen (if clean cfg then clean_mods_dir ?D fs1 else (Inr (), fs1, []))
        (\<lambda>u fs3.
      andthen (copy_addons wd cfg fs3)
        (\<lambda>n fs4.
      andthen (said [step ''Copying built mod'' []] (copy_item ?T ?D fs4))
        (\<lambda>u fs5. (Inr (n + 1), fs5, []))))) = (Inr copied, fs', out)"
    by (simp add: deploy_files_def Let_def)
  then obtain n fs3 fs4 o1 o2 where "copy_addons wd cfg fs3 = (Inr n, fs4, o1)"
    "copy_item ?T ?D fs4 = (Inr (), fs', o2)" "copied = n + 1"
    by (auto elim!: andthenE saidE)
  then show ?thesis by blast
qed

lemma copy_mods_loop_inv:
  assumes "copy_mods_loop ps dst force ts n fs = (r, fs', out)" and "I fs"
    and "\<And>p a b res msgs. p \<in> set ps \<Longrightarrow> I a \<Longrightarrow>
           copy_mod_item p dst (\<not> force) ts a = (res, b, msgs) \<Longrightarrow> I b"
  shows "I fs'"
  using assms
proof (induction ps arbitrary: n fs out r)
  case Nil
  then show ?case by simp
next
  case (Cons p ps)
  from Cons.prems(1) have "andthen (copy_mod_item p dst (\<not> force) ts fs)
       (\<lambda>b. copy_mods_loop ps dst force ts (if b then n + 1 else n)) = (r, fs', out)"
    by simp
  then show ?case
  proof (cases rule: andthenE)
    case (raised e)
    from Cons.prems(3) [OF _ Cons.prems(2) raised(1)] show ?thesis by simp
  next
    case (went_on x fs1 o1 o2)
    from Cons.prems(3) [OF _ Cons.prems(2) went_on(1)] have i1: "I fs1" by simp
    have step: "I b" if "p' \<in> set ps" "I a" "copy_mod_item p' dst (\<not> force) ts a = (res, b, msgs)"
      for p' a b res msgs
      using Cons.prems(3) [OF _ that(2,3)] that(1) by simp
    from Cons.IH [OF went_on(2) i1 step] show ?thesis .
  qed
qed

lemma copy_user_mods_inv:
  assumes "copy_user_mods ms base dst force ts fs = (r, fs', out)" and "I fs"
    and "\<And>p a b res msgs. p \<in> set (map (user_mod_path base) ms) \<Longrightarrow> I a \<Longrightarrow>
           copy_mod_item p dst (\<not> force) ts a = (res, b, msgs) \<Longrightarrow> I b"
  shows "I fs'"
proof (cases "ms = []")
  case True
  with assms(1,2) show ?thesis by (simp add: copy_user_mods_def)
next
  case False
  with assms(1) obtain o1 where
    loop: "copy_mods_loop (filter (path_exists fs) (map (user_mod_path base) ms)) dst force ts 0 fs
       = (r, fs', o1)"
    by (auto simp: copy_user_mods_def valid_mods_filter elim: saidE)
  have step: "I b" if "p \<in> set (filter (path_exists fs) (map (user_mod_path base) ms))" "I a"
    "copy_mod_item p dst (\<not> force) ts a = (res, b, msgs)" for p a b res msgs
    using assms(3) [OF _ that(2,3)] that(1) by simp
  from loop assms(2) step show ?thesis by (rule copy_mods_loop_inv [where I = I])
qed

lemma copy_library_mod_inv:
  assumes "copy_library_mod wd title lib dst force n fs = (r, fs', out)" and "I fs"
    and "\<And>a b res msgs. truthy lib \<Longrightarrow> I a \<Longrightarrow>
           copy_mod_item (resolve wd (Path (the lib))) dst (\<not> force) False a = (res, b, msgs) \<Longrightarrow> I b"
  shows "I fs'"
proof (cases "truthy lib")
  case False
  with assms(1,2) show ?thesis by (simp add: copy_library_mod_def)
next
  case True
  obtain res b o1 where c: "copy_mod_item (resolve wd (Path (the lib))) dst (\<not> force) False fs
      = (res, b, o1)" by (metis prod_cases3)
  from assms(3) [OF True assms(2) c] have "I b" .
  moreover from assms(1) True c have "fs' = b"
    by (cases res) (simp_all add: copy_library_mod_def said_def andthen_def)
  ultimately show ?thesis by simp
qed

lemma copy_multiplayer_mods_inv:
  assumes "copy_multiplayer_mods wd m s dst force fs = (r, fs', out)" and "I fs"
    and "\<And>a b res msgs. I a \<Longrightarrow>
           copy_mod_item (resolve wd (Path m)) dst (\<not> force) False a = (res, b, msgs) \<Longrightarrow> I b"
    and "\<And>n a b res msgs. I a \<Longrightarrow>
           copy_starter (resolve wd (Path s)) dst force n a = (res, b, msgs) \<Longrightarrow> I b"
  shows "I fs'"
proof -
  let ?M = "resolve wd (Path m)" and ?S = "resolve wd (Path s)"
  define first where "first = (if \<not> path_exists fs ?M
            then (Inr 0, fs, [warn ''Multiplayer mod not found'' [m]])
            else andthen (copy_mod_item ?M dst (\<not> force) False fs)
                   (\<lambda>b fs'. if b then (Inr (1::nat), fs', [ok ''Multiplayer mod copied'' []])
                            else (Inr 0, fs', [ok ''Multiplayer mod already present'' []])))"
  obtain r1 fs1 o1 where f: "first = (r1, fs1, o1)" by (metis prod_cases3)
  have i1: "I fs1"
  proof (cases "path_exists fs ?M")
    case False
    with f assms(2) show ?thesis by (simp add: first_def)
  next
    case True
    obtain res b o2 where c: "copy_mod_item ?M dst (\<not> force) False fs = (res, b, o2)"
      by (metis prod_cases3)
    from assms(3) [OF assms(2) c] have "I b" .
    moreover from f True c have "fs1 = b"
      by (cases res) (simp_all add: first_def andthen_def split: if_splits)
    ultimately show ?thesis by simp
  qed
  from assms(1) have "said [step ''Copying multiplayer extras'' []]
      (andthen first (\<lambda>count fs1.
        if \<not> path_exists fs1 ?S
        then (Inr count, fs1, [warn ''Multiplayer starter not found'' [s]])
        else copy_starter ?S dst force count fs1)) = (r, fs', out)"
    by (simp add: copy_multiplayer_mods_def Let_def first_def)
  then obtain o3 where
    "andthen first (\<lambda>count fs1.
        if \<not> path_exists fs1 ?S
        then (Inr count, fs1, [warn ''Multiplayer starter not found'' [s]])
        else copy_starter ?S dst force count fs1) = (r, fs', o3)"
    by (rule saidE)
  then show ?thesis
  proof (cases rule: andthenE)
    case (raised e)
    with i1 f show ?thesis by simp
  next
    case (went_on x fs2 o4 o5)
    with f have eq: "fs2 = fs1" by simp
    show ?thesis
    proof (cases "path_exists fs1 ?S")
      case False
      with went_on(2) eq i1 show ?thesis by simp
    next
      case True
      with went_on(2) eq have "copy_starter ?S dst force x fs1 = (r, fs', o5)" by simp
      from assms(4) [OF i1 this] show ?thesis .
    qed
  qed
qed

lemma copy_library_mods_inv:
  assumes "copy_library_mods wd l1 l2 dst force fs = (r, fs', out)" and "I fs"
    and "\<And>a b res msgs. truthy l1 \<Longrightarrow> I a \<Longrightarrow>
           copy_mod_item (resolve wd (Path (the l1))) dst (\<not> force) False a = (res, b, msgs) \<Longrightarrow> I b"
    and "\<And>a b res msgs. truthy l2 \<Longrightarrow> I a \<Longrightarrow>
           copy_mod_item (resolve wd (Path (the l2))) dst (\<not> force) False a = (res, b, msgs) \<Longrightarrow> I b"
  shows "I fs'"
proof -
  from assms(1) have "andthen (copy_library_mod wd ''Copying S1API'' l1 dst force 0 fs)
       (\<lambda>count. copy_library_mod wd ''Copying UnityExplorer'' l2 dst force count) = (r, fs', out)"
    by (simp add: copy_library_mods_def)
  then show ?thesis
  proof (cases rule: andthenE)
    case (raised e)
    from raised(1) assms(2,3) show ?thesis by (rule copy_library_mod_inv [where I = I])
  next
    case (went_on x fs1 o1 o2)
    from went_on(1) assms(2,3) have "I fs1" by (rule copy_library_mod_inv [where I = I])
    with went_on(2) show ?thesis using assms(4) by (rule copy_library_mod_inv [where I = I])
  qed
qed

lemma copy_addons_inv:
  assumes run: "copy_addons wd cfg fs = (r, fs', out)" and init: "I fs"
    and item: "\<And>p ts a b res msgs. p \<in> set (addon_sources wd cfg) \<Longrightarrow> I a \<Longrightarrow>
           copy_mod_item p (resolve wd (Path (mods_dir cfg))) (\<not> force_copy cfg) ts a
             = (res, b, msgs) \<Longrightarrow> I b"
    and starter: "\<And>n a b res msgs. truthy (mp_mod cfg) \<and> truthy (mp_starter cfg) \<Longrightarrow> I a \<Longrightarrow>
           copy_starter (resolve wd (Path (the (mp_starter cfg)))) (resolve wd (Path (mods_dir cfg)))
             (force_copy cfg) n a = (res, b, msgs) \<Longrightarrow> I b"
  shows "I fs'"
proof -
  let ?D = "resolve wd (Path (mods_dir cfg))"
  let ?base = "resolve wd (Path (project_dir cfg))"
  define mp where "mp = (truthy (mp_mod cfg) \<and> truthy (mp_starter cfg))"
  from run have "andthen (copy_user_mods (mod_list cfg) ?base ?D (force_copy cfg)
                 (show_timestamps cfg) fs)
        (\<lambda>n1 fs1.
      andthen (if mp
               then copy_multiplayer_mods wd (the (mp_mod cfg)) (the (mp_starter cfg))
                      ?D (force_copy cfg) fs1
               else (Inr 0, fs1, []))
        (\<lambda>n2 fs2.
      andthen (copy_library_mods wd (s1api_path cfg) (unity_explorer_path cfg)
                 ?D (force_copy cfg) fs2)
        (\<lambda>n3 fs3. (Inr (n1 + n2 + n3), fs3, [])))) = (r, fs', out)"
    by (simp add: copy_addons_def Let_def mp_def)
  then show ?thesis
  proof (cases rule: andthenE)
    case (raised e)
    from raised(1) init show ?thesis
      by (rule copy_user_mods_inv [where I = I]) (rule item, simp_all add: addon_sources_def)
  next
    case user: (went_on n1 fs1 o1 o2)
    from user(1) init have i1: "I fs1"
      by (rule copy_user_mods_inv [where I = I]) (rule item, simp_all add: addon_sources_def)
    have i2: "I b" if "(if mp
               then copy_multiplayer_mods wd (the (mp_mod cfg)) (the (mp_starter cfg))
                      ?D (force_copy cfg) fs1
               else (Inr 0, fs1, [])) = (res, b, msgs)" for res b msgs
    proof (cases mp)
      case False
      with that i1 show ?thesis by simp
    next
      case True
      with that have "copy_multiplayer_mods wd (the (mp_mod cfg)) (the (mp_starter cfg))
                      ?D (force_copy cfg) fs1 = (res, b, msgs)" by simp
      then show ?thesis using i1
      proof (rule copy_multiplayer_mods_inv [where I = I])
        fix a b' res' msgs'
        assume "I a" "copy_mod_item (resolve wd (Path (the (mp_mod cfg)))) ?D
            (\<not> force_copy cfg) False a = (res', b', msgs')"
        with True show "I b'" by (intro item [of _ a False res' b' msgs']) (simp_all add: addon_sources_def mp_def)
      next
        fix n a b' res' msgs'
        assume "I a" "copy_starter (resolve wd (Path (the (mp_starter cfg)))) ?D (force_copy cfg) n a
            = (res', b', msgs')"
        with True show "I b'" by (intro starter [of a n res' b' msgs']) (simp_all add: mp_def)
      qed
    qed
    from user(2) show ?thesis
    proof (cases rule: andthenE)
      case (raised e)
      from i2 [OF raised(1)] show ?thesis .
    next
      case multi: (went_on n2 fs2 o3 o4)
      from i2 [OF multi(1)] have i2': "I fs2" .
      have i3: "I b" if "copy_library_mods wd (s1api_path cfg) (unity_explorer_path cfg)
                 ?D (force_copy cfg) fs2 = (res, b, msgs)" for res b msgs
        using that i2'
      proof (rule copy_library_mods_inv [where I = I])
        fix a b' res' msgs'
        assume "truthy (s1api_path cfg)" "I a" "copy_mod_item (resolve wd (Path (the (s1api_path cfg)))) ?D
            (\<not> force_copy cfg) False a = (res', b', msgs')"
        then show "I b'" by (intro item [of _ a False res' b' msgs']) (simp_all add: addon_sources_def)
      next
        fix a b' res' msgs'
        assume "truthy (unity_explorer_path cfg)" "I a"
          "copy_mod_item (resolve wd (Path (the (unity_explorer_path cfg)))) ?D
            (\<not> force_copy cfg) False a = (res', b', msgs')"
        then show "I b'" by (intro item [of _ a False res' b' msgs']) (simp_all add: addon_sources_def)
      qed
      from multi(2) show ?thesis
      proof (cases rule: andthenE)
        case (raised e)
        from i3 [OF raised(1)] show ?thesis .
      next
        case (went_on n3 fs3 o5 o6)
        from i3 [OF went_on(1)] went_on(2) show ?thesis by simp
      qed
    qed
  qed
qed

lemma deploy_files_inv:
  assumes run: "deploy_files wd cfg fs = (r, fs', out)" and init: "I fs"
    and mk: "\<And>a b. I a \<Longrightarrow> mkdir_p a (resolve wd (Path (mods_dir cfg))) = Inr b \<Longrightarrow> I b"
    and cl: "\<And>a b res msgs. clean cfg \<Longrightarrow> I a \<Longrightarrow>
           clean_mods_dir (resolve wd (Path (mods_dir cfg))) a = (res, b, msgs) \<Longrightarrow> I b"
    and item: "\<And>p ts a b res msgs. p \<in> set (addon_sources wd cfg) \<Longrightarrow> I a \<Longrightarrow>
           copy_mod_item p (resolve wd (Path (mods_dir cfg))) (\<not> force_copy cfg) ts a
             = (res, b, msgs) \<Longrightarrow> I b"
    and starter: "\<And>n a b res msgs. truthy (mp_mod cfg) \<and> truthy (mp_starter cfg) \<Longrightarrow> I a \<Longrightarrow>
           copy_starter (resolve wd (Path (the (mp_starter cfg)))) (resolve wd (Path (mods_dir cfg)))
             (force_copy cfg) n a = (res, b, msgs) \<Longrightarrow> I b"
    and ci: "\<And>a b res msgs. I a \<Longrightarrow>
           copy_item (resolve wd (Path (target cfg))) (resolve wd (Path (mods_dir cfg))) a
             = (res, b, msgs) \<Longrightarrow> I b"
  shows "I fs'"
proof -
  let ?D = "resolve wd (Path (mods_dir cfg))" and ?T = "resolve wd (Path (target cfg))"
  from run have "andthen (ensure_dir ?D fs)
        (\<lambda>u fs1.
      andthen (if clean cfg then clean_mods_dir ?D fs1 else (Inr (), fs1, []))
        (\<lambda>u fs3.
      andthen (copy_addons wd cfg fs3)
        (\<lambda>n fs4.
      andthen (said [step ''Copying built mod'' []] (copy_item ?T ?D fs4))
        (\<lambda>u fs5. (Inr (n + 1), fs5, []))))) = (r, fs', out)"
    by (simp add: deploy_files_def Let_def)
  then show ?thesis
  proof (cases rule: andthenE)
    case (raised e)
    then have "fs' = fs" by (auto simp: ensure_dir_def attempt_def split: sum.splits)
    with init show ?thesis by simp
  next
    case made: (went_on u fs1 o1 o2)
    then have "mkdir_p fs ?D = Inr fs1" by (auto simp: ensure_dir_def attempt_def split: sum.splits)
    with init have i1: "I fs1" by (rule mk)
    have i2: "I b" if "(if clean cfg then clean_mods_dir ?D fs1 else (Inr (), fs1, []))
        = (res, b, msgs)" for res b msgs
      using that i1 cl [of fs1 res b msgs] by (auto split: if_splits)
    from made(2) show ?thesis
    proof (cases rule: andthenE)
      case (raised e)
      from i2 [OF raised(1)] show ?thesis .
    next
      case cleaned: (went_on u' fs3 o3 o4)
      from i2 [OF cleaned(1)] have i3: "I fs3" .
      have i4: "I b" if "copy_addons wd cfg fs3 = (res, b, msgs)" for res b msgs
        using that i3 by (rule copy_addons_inv [where I = I]) (erule (2) item, erule (2) starter)
      from cleaned(2) show ?thesis
      proof (cases rule: andthenE)
        case (raised e)
        from i4 [OF raised(1)] show ?thesis .
      next
        case addons: (went_on n fs4 o5 o6)
        from i4 [OF addons(1)] have i5: "I fs4" .
        have i6: "I b" if "said [step ''Copying built mod'' []] (copy_item ?T ?D fs4)
            = (res, b, msgs)" for res b msgs
          using that i5 by (auto elim!: saidE intro: ci)
        from addons(2) show ?thesis
        proof (cases rule: andthenE)
          case (raised e)
          from i6 [OF raised(1)] show ?thesis .
        next
          case (went_on u'' fs5 o7 o8)
          from i6 [OF went_on(1)] went_on(2) show ?thesis by simp
        qed
      qed
    qed
  qed
qed

lemma sibling_kept_refl [simp]: "sibling_kept g x fs fs"
  by (simp add: sibling_kept_def)

lemma sibling_kept_trans:
  "sibling_kept g x fs fs1 \<Longrightarrow> sibling_kept g x fs1 fs2 \<Longrightarrow> sibling_kept g x fs fs2"
  by (simp add: sibling_kept_def)

lemma sibling_kept_source:
  assumes "sibling_kept g x fs fs'" "\<not> prefix p g" "\<not> prefix g p" "prefix p q"
  shows "fs' q = fs q"
  using assms(1) apart_below(1,2) [OF assms(2,3,4)] by (simp add: sibling_kept_def)

lemma touches_sibling_kept:
  assumes t: "touches (g @ d # rest) fs fs'" and d: "d \<noteq> x"
  shows "sibling_kept g x fs fs'"
  unfolding sibling_kept_def
proof (intro conjI allI impI)
  let ?t = "g @ d # rest"
  have b: "butlast ?t = (if rest = [] then g else g @ d # butlast rest)"
    by (simp add: butlast_append)
  fix q assume q: "\<not> prefix g q \<and> \<not> prefix q g"
  then have "\<not> prefix ?t q" by (auto dest: append_prefixD)
  moreover have "\<not> prefix q (butlast ?t)"
  proof
    assume "prefix q (butlast ?t)"
    then have "prefix q ?t" by (metis prefix_order.trans prefixeq_butlast)
    moreover have "prefix g ?t" by simp
    ultimately have "prefix q g \<or> prefix g q" by (metis prefix_same_cases)
    with q show False by simp
  qed
  ultimately show "fs' q = fs q" using t by (simp add: touches_def)
next
  let ?t = "g @ d # rest"
  from d have "\<not> prefix ?t (g @ [x])" by simp
  moreover from d have "\<not> prefix (g @ [x]) (butlast ?t)"
    by (cases "rest = []") (simp_all add: butlast_append)
  ultimately have "fs' (g @ [x]) = fs (g @ [x])" using t by (simp add: touches_def)
  then show "is_dir fs' (g @ [x]) = is_dir fs (g @ [x])" by (simp add: is_dir_def)
qed

lemma outside_sibling_kept:
  assumes o: "outside (g @ [y]) fs fs'" and y: "y \<noteq> x"
  shows "sibling_kept g x fs fs'"
  unfolding sibling_kept_def
proof (intro conjI allI impI)
  fix q assume "\<not> prefix g q \<and> \<not> prefix q g"
  with o show "fs' q = fs q" by (simp add: outside_frame)
next
  from y have "\<not> prefix (g @ [y]) (g @ [x]) \<and> \<not> prefix (g @ [x]) (g @ [y])" by simp
  with o have "fs' (g @ [x]) = fs (g @ [x])" unfolding outside_def by blast
  then show "is_dir fs' (g @ [x]) = is_dir fs (g @ [x])" by (simp add: is_dir_def)
qed

lemma copy2_sibling_kept:
  assumes c: "copy2 fs src t = Inr fs'" and t: "t = g \<or> t = g @ [n]"
  shows "sibling_kept g x fs fs'"
  unfolding sibling_kept_def
proof (intro conjI allI impI)
  fix q assume q: "\<not> prefix g q \<and> \<not> prefix q g"
  with t have "\<not> prefix t q" by (auto dest: append_prefixD)
  moreover have "\<not> prefix q (butlast t)"
  proof
    assume "prefix q (butlast t)"
    then have "prefix q t" by (metis prefix_order.trans prefixeq_butlast)
    with t q show False by auto
  qed
  ultimately show "fs' q = fs q" using copy2_touches [OF c] by (simp add: touches_def)
next
  show "is_dir fs' (g @ [x]) = is_dir fs (g @ [x])" by (rule copy2_kinds(1) [OF c])
qed

lemma copy_root_sibling_kept:
  assumes cr: "copy_root p nm (g @ [y]) create fs = (r, fs', out)"
    and ap: "\<not> prefix p g" "\<not> prefix g p"
    and no: "y = x \<Longrightarrow> \<forall>sub. find_subdir_case_insensitive fs p nm \<noteq> Inr (Some sub)"
  shows "sibling_kept g x fs fs'"
proof (cases "y = x")
  case False
  with copy_root_effect(1) [OF cr ap] show ?thesis by (rule outside_sibling_kept)
next
  case True
  from no [OF True] cr have "fs' = fs"
    by (auto simp: copy_root_def split: sum.splits option.splits)
  then show ?thesis by simp
qed

lemma copy_structured_mod_sibling_kept:
  assumes cs: "copy_structured_mod p (g @ [d]) fs = (r, fs', out)"
    and ap: "\<not> prefix p g" "\<not> prefix g p" and d: "d \<noteq> x"
    and no: "\<forall>sub. find_subdir_case_insensitive fs p x \<noteq> Inr (Some sub)"
  shows "sibling_kept g x fs fs'"
proof (cases "path_exists fs p")
  case False
  with cs show ?thesis by (simp add: copy_structured_mod_def)
next
  case True
  have root: "sibling_kept g x fs b" if "copy_root p y (g @ [y]) c a = (r', b, o')"
    "sibling_kept g x fs a" for y c a b r' o'
  proof -
    have "find_subdir_case_insensitive a p x = find_subdir_case_insensitive fs p x"
      using sibling_kept_source [OF that(2) ap] by (rule find_subdir_cong)
    with no have "y = x \<Longrightarrow> \<forall>sub. find_subdir_case_insensitive a p y \<noteq> Inr (Some sub)" by simp
    with that(1) ap have "sibling_kept g x a b" by (rule copy_root_sibling_kept)
    with that(2) show ?thesis by (rule sibling_kept_trans)
  qed
  from cs True obtain o1 where
    "andthen (copy_root p ''Mods'' (g @ [d]) False fs)
       (\<lambda>u fs1. andthen (copy_root p ''Plugins'' (g @ [''Plugins'']) True fs1)
          (\<lambda>u fs2. copy_root p ''UserLibs'' (g @ [''UserLibs'']) True fs2)) = (r, fs', o1)"
    by (auto simp: copy_structured_mod_def path_parent_def joinpath_def elim: saidE)
  then show ?thesis
  proof (cases rule: andthenE)
    case (raised e)
    from copy_root_effect(1) [OF raised(1) ap] d show ?thesis by (rule outside_sibling_kept)
  next
    case (went_on u fs1 o1 o2)
    from copy_root_effect(1) [OF went_on(1) ap] d have 1: "sibling_kept g x fs fs1"
      by (rule outside_sibling_kept)
    from went_on(2) show ?thesis
    proof (cases rule: andthenE)
      case (raised e)
      from raised(1) 1 show ?thesis by (rule root)
    next
      case (went_on u' fs2 o3 o4)
      from went_on(1) 1 have "sibling_kept g x fs fs2" by (rule root)
      with went_on(2) show ?thesis by (rule root)
    qed
  qed
qed

lemma copy_mod_item_sibling_kept:
  assumes ci: "copy_mod_item p (g @ [d]) skip ts fs = (r, fs', out)"
    and ap: "\<not> prefix p g" "\<not> prefix g p" and d: "d \<noteq> x"
    and no: "\<forall>sub. find_subdir_case_insensitive fs p x \<noteq> Inr (Some sub)"
  shows "sibling_kept g x fs fs'"
proof -
  let ?t = "joinpath (g @ [d]) (path_name p)"
  have t: "?t = g @ d # (if path_name p = [] then [] else [path_name p])"
    by (simp add: joinpath_def)
  obtain r1 fs1 o1 where rt: "replace_tree p ?t fs = (r1, fs1, o1)" by (metis prod_cases3)
  obtain r2 fs2 o2 where cs: "copy_structured_mod p (g @ [d]) fs = (r2, fs2, o2)"
    by (metis prod_cases3)
  from ci rt cs have "fs' = fs \<or> (\<exists>fs3. copy2 fs p ?t = Inr fs3 \<and> fs' = fs3) \<or> fs' = fs1 \<or> fs' = fs2"
    by (auto simp: copy_mod_item_def copy_mod_file_def copy_mod_folder_def copy_mod_structured_def
        said_def andthen_def Let_def split: if_splits sum.splits bool.splits)
  moreover have "sibling_kept g x fs fs3" if "copy2 fs p ?t = Inr fs3" for fs3
    using copy2_touches [OF that] d unfolding t by (rule touches_sibling_kept)
  moreover have "sibling_kept g x fs fs1"
    using replace_tree_touches [OF rt] d unfolding t by (rule touches_sibling_kept)
  moreover have "sibling_kept g x fs fs2"
    using cs ap d no by (rule copy_structured_mod_sibling_kept)
  ultimately show ?thesis by auto
qed

lemma copy_item_sibling_kept:
  assumes "copy_item src (g @ [d]) fs = (r, fs', out)" and d: "d \<noteq> x"
  shows "sibling_kept g x fs fs'"
proof -
  let ?t = "joinpath (g @ [d]) (path_name src)"
  have t: "?t = g @ d # (if path_name src = [] then [] else [path_name src])"
    by (simp add: joinpath_def)
  obtain r1 fs1 o1 where rt: "replace_tree src ?t fs = (r1, fs1, o1)" by (metis prod_cases3)
  from assms(1) rt have "fs' = fs \<or> (\<exists>fs3. copy2 fs src ?t = Inr fs3 \<and> fs' = fs3) \<or> fs' = fs1"
    by (auto simp: copy_item_def said_def attempt_def Let_def split: if_splits sum.splits)
  moreover have "sibling_kept g x fs fs3" if "copy2 fs src ?t = Inr fs3" for fs3
    using copy2_touches [OF that] d unfolding t by (rule touches_sibling_kept)
  moreover have "sibling_kept g x fs fs1"
    using replace_tree_touches [OF rt] d unfolding t by (rule touches_sibling_kept)
  ultimately show ?thesis by auto
qed

lemma copy_starter_sibling_kept:
  assumes "copy_starter src (g @ [d]) force n fs = (r, fs', out)"
  shows "sibling_kept g x fs fs'"
proof -
  let ?t = "joinpath g (path_name src)"
  have t: "?t = g \<or> ?t = g @ [path_name src]" by (simp add: joinpath_def)
  from assms have "fs' = fs \<or> (\<exists>fs3. copy2 fs src ?t = Inr fs3 \<and> fs' = fs3)"
    by (auto simp: copy_starter_def Let_def path_parent_def split: if_splits sum.splits)
  moreover have "sibling_kept g x fs fs3" if "copy2 fs src ?t = Inr fs3" for fs3
    using that t by (rule copy2_sibling_kept)
  ultimately show ?thesis by auto
qed

lemma unlink_touches:
  assumes "unlink fs p = Inr fs'"
  shows "touches p fs fs'"
proof -
  from assms have fs': "fs' = unlink_entry (fs(p := None)) p"
    by (auto simp: unlink_def split: option.splits entry.splits)
  show ?thesis
    unfolding touches_def
  proof (intro allI impI conjI)
    fix q assume q: "\<not> prefix p q"
    then have ne: "q \<noteq> p" by auto
    then show "\<not> prefix q (butlast p) \<Longrightarrow> fs' q = fs q"
      using fs' by (auto simp: unlink_entry_other)
    from ne fs' show "is_dir fs q \<Longrightarrow> is_dir fs' q" by simp
    from ne fs' show "is_file fs' q = is_file fs q" by simp
  qed
qed

lemma clean_items_sibling_kept:
  assumes "clean_items items fs = (fs', out)"
    and "\<forall>item\<in>set items. \<exists>n. item = g @ [d, n]" and "d \<noteq> x"
  shows "sibling_kept g x fs fs'"
  using assms(1,2)
proof (induction items arbitrary: fs out)
  case Nil
  then show ?case by simp
next
  case (Cons item items)
  from Cons.prems(2) obtain n where item: "item = g @ [d, n]" by auto
  show ?case
  proof (cases "if is_dir fs item then rmtree fs item else unlink fs item")
    case (Inl e)
    with Cons.prems(1) obtain o1 where "clean_items items fs = (fs', o1)"
      by (auto split: prod.splits)
    from Cons.IH [OF this] Cons.prems(2) show ?thesis by simp
  next
    case (Inr fs1)
    then have "touches item fs fs1"
      by (auto split: if_splits intro: rmtree_touches unlink_touches)
    with assms(3) have 1: "sibling_kept g x fs fs1"
      unfolding item by (intro touches_sibling_kept [of g d "[n]"]) simp_all
    from Inr Cons.prems(1) have "clean_items items fs1 = (fs', out)" by simp
    from Cons.IH [OF this] Cons.prems(2) have "sibling_kept g x fs1 fs'" by simp
    with 1 show ?thesis by (rule sibling_kept_trans)
  qed
qed

lemma clean_mods_dir_sibling_kept:
  assumes "clean_mods_dir (g @ [d]) fs = (r, fs', out)" and "d \<noteq> x"
  shows "sibling_kept g x fs fs'"
proof (cases "iterdir fs (g @ [d])")
  case (Inl e)
  with assms(1) show ?thesis
    by (auto simp: clean_mods_dir_def said_def split: if_splits)
next
  case (Inr items)
  obtain fs1 o1 where c: "clean_items items fs = (fs1, o1)" by (metis surj_pair)
  have "\<forall>item\<in>set items. \<exists>n. item = g @ [d, n]"
    using iterdir_items(1) [OF Inr] by auto
  with c have "sibling_kept g x fs fs1" using assms(2) by (rule clean_items_sibling_kept)
  moreover from assms(1) Inr c have "fs' = fs \<or> fs' = fs1"
    by (auto simp: clean_mods_dir_def said_def split: if_splits)
  ultimately show ?thesis by auto
qed

lemma mkdir_p_sibling_kept:
  assumes "mkdir_p fs (g @ [d]) = Inr fs'" and "d \<noteq> x"
  shows "sibling_kept g x fs fs'"
  using mkdir_p_outside [OF assms(1)] assms(2) by (rule outside_sibling_kept)

lemma deploy_files_sibling_kept:
  assumes run: "deploy_files wd cfg fs = (r, fs', out)"
    and D: "resolve wd (Path (mods_dir cfg)) = g @ [d]" and d: "d \<noteq> x"
    and src: "\<forall>p\<in>set (addon_sources wd cfg). \<not> prefix p g \<and> \<not> prefix g p \<and>
                (\<forall>sub. find_subdir_case_insensitive fs p x \<noteq> Inr (Some sub))"
  shows "sibling_kept g x fs fs'"
  using run
proof (rule deploy_files_inv [where I = "sibling_kept g x fs"])
  show "sibling_kept g x fs fs" by simp
next
  fix a b assume "sibling_kept g x fs a" "mkdir_p a (resolve wd (Path (mods_dir cfg))) = Inr b"
  with d show "sibling_kept g x fs b"
    unfolding D by (blast intro: sibling_kept_trans mkdir_p_sibling_kept)
next
  fix a b res msgs
  assume "sibling_kept g x fs a" "clean_mods_dir (resolve wd (Path (mods_dir cfg))) a = (res, b, msgs)"
  with d show "sibling_kept g x fs b"
    unfolding D by (blast intro: sibling_kept_trans clean_mods_dir_sibling_kept)
next
  fix p ts a b res msgs
  assume p: "p \<in> set (addon_sources wd cfg)" and a: "sibling_kept g x fs a"
    and c: "copy_mod_item p (resolve wd (Path (mods_dir cfg))) (\<not> force_copy cfg) ts a
        = (res, b, msgs)"
  from src p have ap: "\<not> prefix p g" "\<not> prefix g p"
    and no: "\<forall>sub. find_subdir_case_insensitive fs p x \<noteq> Inr (Some sub)" by auto
  have "find_subdir_case_insensitive a p x = find_subdir_case_insensitive fs p x"
    using sibling_kept_source [OF a ap] by (rule find_subdir_cong)
  with no have "\<forall>sub. find_subdir_case_insensitive a p x \<noteq> Inr (Some sub)" by simp
  with c [unfolded D] ap d have "sibling_kept g x a b" by (rule copy_mod_item_sibling_kept)
  with a show "sibling_kept g x fs b" by (rule sibling_kept_trans)
next
  fix n a b res msgs
  assume "sibling_kept g x fs a"
    "copy_starter (resolve wd (Path (the (mp_starter cfg)))) (resolve wd (Path (mods_dir cfg)))
       (force_copy cfg) n a = (res, b, msgs)"
  then show "sibling_kept g x fs b"
    unfolding D by (blast intro: sibling_kept_trans copy_starter_sibling_kept)
next
  fix a b res msgs
  assume "sibling_kept g x fs a"
    "copy_item (resolve wd (Path (target cfg))) (resolve wd (Path (mods_dir cfg))) a = (res, b, msgs)"
  with d show "sibling_kept g x fs b"
    unfolding D by (blast intro: sibling_kept_trans copy_item_sibling_kept)
qed

lemma files_finish [simp]: "files (finish ev cfg n w) = files w"
  by (simp add: finish_def summary_def launch_game_def Let_def)

lemma files_check_wine [simp]: "files (snd (check_wine ev cfg w)) = files w"
  by (simp add: check_wine_def Let_def)

lemma deploy_files_of:
  assumes "\<not> matches ev (path_name (resolve (cwd ev) (Path (exe_path cfg)))) (own ev)"
  shows "fst (deploy ev cfg w) = fst (deploy_files (cwd ev) cfg (files w))"
    and "files (snd (deploy ev cfg w)) = fst (snd (deploy_files (cwd ev) cfg (files w)))"
  using deploy_agrees [OF assms, of w] by (simp_all add: agrees_def)

lemma deploy_files_cases:
  "files (snd (deploy ev cfg w)) = fst (snd (deploy_files (cwd ev) cfg (files w))) \<or>
   files (snd (deploy ev cfg w)) = files w \<or>
   mkdir_p (files w) (resolve (cwd ev) (Path (mods_dir cfg))) = Inr (files (snd (deploy ev cfg w)))"
  using deploy_files_of(2) [of ev cfg w] deploy_terminated(2) [of ev cfg w] by blast

lemma main_files:
  "files (snd (main ev cfg w)) = fst (snd (deploy_files (cwd ev) cfg (files w))) \<or>
   files (snd (main ev cfg w)) = files w \<or>
   mkdir_p (files w) (resolve (cwd ev) (Path (mods_dir cfg))) = Inr (files (snd (main ev cfg w)))"
proof -
  obtain r1 w1 where cw: "check_wine ev cfg w = (r1, w1)" by (metis surj_pair)
  then have w1: "files w1 = files w" using files_check_wine [of ev cfg w] by simp
  obtain r2 w2 where d: "deploy ev cfg w1 = (r2, w2)" by (metis surj_pair)
  with deploy_files_cases [of ev cfg w1] w1
  have w2: "files w2 = fst (snd (deploy_files (cwd ev) cfg (files w))) \<or> files w2 = files w \<or>
      mkdir_p (files w) (resolve (cwd ev) (Path (mods_dir cfg))) = Inr (files w2)" by simp
  show ?thesis
  proof (cases "\<not> path_exists (files w) (resolve (cwd ev) (Path (target cfg)))
      \<or> mp_pairing_error cfg \<noteq> None")
    case True
    then show ?thesis by (auto simp: main_def Let_def)
  next
    case False
    then have m: "main ev cfg w = next_stage (check_wine ev cfg w)
                 (\<lambda>u w1. next_stage (deploy ev cfg w1)
                    (\<lambda>total_copied w2. (Inr (), finish ev cfg total_copied w2)))"
      by (auto simp: main_def Let_def)
    show ?thesis
    proof (cases r1)
      case (Inl e)
      with m cw w1 show ?thesis by (simp add: next_stage_def)
    next
      case (Inr u)
      with m cw d w2 show ?thesis by (cases r2) (simp_all add: next_stage_def)
    qed
  qed
qed

section \<open>The inputs are validated before anything is done\<close>

text \<open>
  Claim C3. An input counts as supplied when Python takes it for true: it is given and
  not empty. When exactly one of \<^verbatim>\<open>mp_mod\<close> and \<^verbatim>\<open>mp_starter\<close> is supplied,
  \<^verbatim>\<open>main\<close> raises \<open>Exit 1\<close>, so the exit status is not zero, and the world it leaves
  is the one it found with one error message printed: no file is written or removed, no
  command is run, nothing is launched and the clock has not moved. When both or neither
  are supplied the test finds no error and, the built mod being there, \<^verbatim>\<open>main\<close> goes
  on to the next stages.
\<close>

theorem mp_pairing_validated:
  "(truthy (mp_mod cfg) \<noteq> truthy (mp_starter cfg) \<longrightarrow>
      (\<exists>m args. main ev cfg w = (Inl (Exit 1), emit (error m args) w)) \<and>
      exit_status (fst (main ev cfg w)) \<noteq> 0) \<and>
   (truthy (mp_mod cfg) = truthy (mp_starter cfg) \<longrightarrow>
      mp_pairing_error cfg = None \<and>
      (path_exists (files w) (resolve (cwd ev) (Path (target cfg))) \<longrightarrow>
         main ev cfg w =
           next_stage (check_wine ev cfg w)
             (\<lambda>u w1. next_stage (deploy ev cfg w1)
                (\<lambda>total_copied w2. (Inr (), finish ev cfg total_copied w2)))))"
  by (auto simp: main_def mp_pairing_error_def Let_def)

theorem mp_pairing_validated_witness:
  "(\<exists>m args. main demo_env (demo_cfg\<lparr>mp_mod := Some ''/proj/mp''\<rparr>) demo_world
       = (Inl (Exit 1), emit (error m args) demo_world)) \<and>
   exit_status (fst (main demo_env (demo_cfg\<lparr>mp_mod := Some ''/proj/mp''\<rparr>) demo_world)) \<noteq> 0 \<and>
   mp_pairing_error demo_cfg = None"
  using mp_pairing_validated [of "demo_cfg\<lparr>mp_mod := Some ''/proj/mp''\<rparr>" demo_env demo_world]
    mp_pairing_validated [of demo_cfg demo_env demo_world]
  by (simp add: demo_cfg_def)

section \<open>A source that does not exist\<close>

text \<open>
  Claim C7. \<^verbatim>\<open>copy_mod_item\<close> on a path that does not exist prints the warning
  \<^verbatim>\<open>Mod not found\<close>, returns \<^verbatim>\<open>False\<close> and leaves the files as they are. Its
  callers go on: \<^verbatim>\<open>copy_user_mods\<close> warns for every entry that is missing and runs
  its copy loop over the entries that exist, in their order; a library path that is
  missing leaves the count as it was; a multiplayer mod that is missing is a warning,
  counts nothing, and the starter is still copied.
\<close>

theorem missing_source_is_skipped:
  "(\<not> path_exists fs p \<longrightarrow>
      copy_mod_item p d skip ts fs = (Inr False, fs, [warn ''Mod not found'' p])) \<and>
   (ms \<noteq> [] \<longrightarrow>
      copy_user_mods ms base d force ts fs =
        said (step ''Copying requested mods'' [] #
              map (warn ''Mod not found'')
                (filter (\<lambda>p. \<not> path_exists fs p) (map (user_mod_path base) ms)))
          (copy_mods_loop (filter (path_exists fs) (map (user_mod_path base) ms)) d force ts 0 fs)) \<and>
   (truthy lp \<and> \<not> path_exists fs (resolve wd (Path (the lp))) \<longrightarrow>
      copy_library_mod wd title lp d force n fs =
        (Inr n, fs, [step title [], warn ''Mod not found'' (resolve wd (Path (the lp)))])) \<and>
   (\<not> path_exists fs (resolve wd (Path m)) \<longrightarrow>
      copy_multiplayer_mods wd m s d force fs =
        said [step ''Copying multiplayer extras'' [], warn ''Multiplayer mod not found'' [m]]
          (if \<not> path_exists fs (resolve wd (Path s))
           then (Inr 0, fs, [warn ''Multiplayer starter not found'' [s]])
           else copy_starter (resolve wd (Path s)) d force 0 fs))"
proof (intro conjI impI)
  assume "\<not> path_exists fs p"
  then show "copy_mod_item p d skip ts fs = (Inr False, fs, [warn ''Mod not found'' p])"
    by (simp add: copy_mod_item_def)
next
  assume "ms \<noteq> []"
  then show "copy_user_mods ms base d force ts fs =
        said (step ''Copying requested mods'' [] #
              map (warn ''Mod not found'')
                (filter (\<lambda>p. \<not> path_exists fs p) (map (user_mod_path base) ms)))
          (copy_mods_loop (filter (path_exists fs) (map (user_mod_path base) ms)) d force ts 0 fs)"
    by (simp add: copy_user_mods_def valid_mods_filter)
next
  assume "truthy lp \<and> \<not> path_exists fs (resolve wd (Path (the lp)))"
  then show "copy_library_mod wd title lp d force n fs =
        (Inr n, fs, [step title [], warn ''Mod not found'' (resolve wd (Path (the lp)))])"
    by (simp add: copy_library_mod_def copy_mod_item_def andthen_def said_def)
next
  assume "\<not> path_exists fs (resolve wd (Path m))"
  then show "copy_multiplayer_mods wd m s d force fs =
        said [step ''Copying multiplayer extras'' [], warn ''Multiplayer mod not found'' [m]]
          (if \<not> path_exists fs (resolve wd (Path s))
           then (Inr 0, fs, [warn ''Multiplayer starter not found'' [s]])
           else copy_starter (resolve wd (Path s)) d force 0 fs)"
    by (simp add: copy_multiplayer_mods_def andthen_def said_def Let_def split: prod.splits)
qed

theorem missing_source_is_skipped_witness:
  "copy_mod_item [''proj'', ''nope''] [''D'', ''Mods''] True False demo_fs
     = (Inr False, demo_fs, [warn ''Mod not found'' [''proj'', ''nope'']]) \<and>
   copy_user_mods [''nope'', ''Extra.dll''] [''proj''] [''D'', ''Mods''] False False demo_fs =
     said [step ''Copying requested mods'' [], warn ''Mod not found'' [''proj'', ''nope'']]
       (copy_mods_loop [[''proj'', ''Extra.dll'']] [''D'', ''Mods''] False False 0 demo_fs) \<and>
   copy_library_mod [''proj''] ''Copying S1API'' (Some ''nope'') [''D'', ''Mods''] False 0 demo_fs =
     (Inr 0, demo_fs, [step ''Copying S1API'' [], warn ''Mod not found'' [''proj'', ''nope'']]) \<and>
   copy_multiplayer_mods [''proj''] ''nope'' ''nope'' [''D'', ''Mods''] False demo_fs =
     (Inr 0, demo_fs,
      [step ''Copying multiplayer extras'' [], warn ''Multiplayer mod not found'' [''nope''],
       warn ''Multiplayer starter not found'' [''nope'']])"
  using missing_source_is_skipped [of demo_fs "[''proj'', ''nope'']" "[''D'', ''Mods'']" True False
      "[''nope'', ''Extra.dll'']" "[''proj'']" False "Some ''nope''" "[''proj'']" "''Copying S1API''" 0
      "''nope''" "''nope''"]
  by (simp add: demo_fs_def path_exists_def user_mod_path_def Path_def parts_def resolve_def
      said_def)

section \<open>The roots of a structured mod are found whatever their case\<close>

text \<open>
  Claim C8. In a directory that lists a subdirectory whose name is \<^verbatim>\<open>mods\<close> in lower
  case, \<^verbatim>\<open>copy_mod_item\<close> finds a structure, and the search for the \<^verbatim>\<open>Mods\<close> root
  returns one path: a listed subdirectory with such a name (the first, if there are
  several). A regular file with such a name is not a root: when no such name is that of
  a directory, the search returns nothing.
\<close>

theorem mods_root_found_once:
  assumes dir: "fs p = Some (Dir ns)"
  shows "(\<forall>n\<in>set ns. str_lower n = ''mods'' \<and> is_dir fs (joinpath p n) \<longrightarrow>
            has_structure fs p = Inr True \<and>
            (\<exists>!r. find_subdir_case_insensitive fs p ''Mods'' = Inr (Some r)) \<and>
            (\<exists>m\<in>set ns. find_subdir_case_insensitive fs p ''Mods'' = Inr (Some (joinpath p m)) \<and>
               str_lower m = ''mods'' \<and> is_dir fs (joinpath p m)))
       \<and> ((\<forall>n\<in>set ns. str_lower n = ''mods'' \<longrightarrow> \<not> is_dir fs (joinpath p n)) \<longrightarrow>
            find_subdir_case_insensitive fs p ''Mods'' = Inr None)"
proof (intro conjI ballI impI)
  fix n assume n: "n \<in> set ns" and hyp: "str_lower n = ''mods'' \<and> is_dir fs (joinpath p n)"
  let ?P = "\<lambda>item. is_dir fs item \<and> str_lower (path_name item) = str_lower ''Mods''"
  let ?items = "map (joinpath p) (filter (\<lambda>n. n \<noteq> []) ns)"
  from hyp have ne: "n \<noteq> []" by (auto simp: str_lower_def)
  with n have "joinpath p n \<in> set ?items" by simp
  moreover from hyp ne have "?P (joinpath p n)" by simp
  ultimately have "find ?P ?items \<noteq> None" by (auto simp: find_None_iff)
  then obtain r where r: "find ?P ?items = Some r" by blast
  then have "?P r" and "r \<in> set ?items"
    using find_Some_set [of ?P ?items r] by blast+
  then obtain m where m: "m \<in> set ns" "m \<noteq> []" "r = joinpath p m" by auto
  from r dir have found: "find_subdir_case_insensitive fs p ''Mods'' = Inr (Some r)"
    by (simp add: find_subdir_Dir)
  then show "has_structure fs p = Inr True"
    by (simp add: has_structure_def)
  from found show "\<exists>!r. find_subdir_case_insensitive fs p ''Mods'' = Inr (Some r)"
    by simp
  from found m \<open>?P r\<close>
  show "\<exists>m\<in>set ns. find_subdir_case_insensitive fs p ''Mods'' = Inr (Some (joinpath p m)) \<and>
               str_lower m = ''mods'' \<and> is_dir fs (joinpath p m)"
    by auto
next
  assume "\<forall>n\<in>set ns. str_lower n = ''mods'' \<longrightarrow> \<not> is_dir fs (joinpath p n)"
  then show "find_subdir_case_insensitive fs p ''Mods'' = Inr None"
    using dir by (auto simp: find_subdir_Dir find_None_iff)
qed

theorem mods_root_found_once_witness:
  "has_structure case_fs [''B''] = Inr True \<and>
   (\<exists>!r. find_subdir_case_insensitive case_fs [''B''] ''Mods'' = Inr (Some r)) \<and>
   find_subdir_case_insensitive case_fs [''B''] ''Mods'' = Inr (Some [''B'', ''mods'']) \<and>
   find_subdir_case_insensitive case_fs [''C''] ''Mods'' = Inr None"
  using mods_root_found_once [of case_fs "[''B'']" "[''MODS'', ''mods'']"]
    mods_root_found_once [of case_fs "[''C'']" "[''Mods'']"]
  by (simp add: case_fs_def is_dir_def joinpath_def str_lower_def lower_char_def)

section \<open>The wait after the termination\<close>

text \<open>
  Claim C6, as stated, fails when the deadline has already come at the first test of the
  loop: with \<^verbatim>\<open>wait_seconds = -3\<close> the loop is not entered, no poll is made, and the
  wait ends with the warning although the process is not detected.
\<close>

theorem wait_not_detected_counterexample:
  "\<not> fst (is_running demo_env ''S1.exe'' demo_world) \<and>
   wait_for_exit demo_env ''S1.exe'' (- 3) False None demo_world
     = emit (warn ''may still be running'' [''S1.exe'']) demo_world"
  by (simp add: wait_for_exit_def wait_loop.simps is_running_def demo_env_def demo_world_def
      elapse_def str_lower_def lower_char_def sublist_Cons_right)

text \<open>
  Claim C6, amended. The deadline \<open>dl\<close> is computed once, from a first reading of the
  clock, as Python adds \<^verbatim>\<open>wait_seconds\<close> and then \<^verbatim>\<open>2.0\<close> to it; \<open>w0\<close> is the world
  at the first test of the loop. The wait is a number of polls that detect the process,
  each made when the clock read before the deadline and each followed by a sleep of a
  fifth of a second; it ends either with a poll, made before the deadline, that does not
  detect the process, and then with the message of success and no further sleep, or with
  a test that finds the clock at the deadline or past it, and then with the warning. So
  when the first test is before the deadline and the first poll does not detect the
  process, the wait returns success at once; and when the first test is not before the
  deadline, it returns the warning at once. The wait changes no file. When the command
  that terminates the game does not match the program itself, \<^verbatim>\<open>kill_processes\<close>
  returns after the wait, and the stages that follow give the result and leave the files
  that they give without the termination: after the warning the pipeline copies as it
  would have otherwise.
\<close>

theorem wait_law:
  assumes "dl = fadd ev (fadd ev (clock w) wait) 2" and "w0 = elapse ev w"
  shows "(\<exists>k. (\<forall>j<k. clock ((next_poll ev exe ^^ j) w0) < dl \<and>
                  fst (is_running ev exe ((next_poll ev exe ^^ j) w0))) \<and>
            (clock ((next_poll ev exe ^^ k) w0) < dl \<and>
               \<not> fst (is_running ev exe ((next_poll ev exe ^^ k) w0)) \<and>
               wait_for_exit ev exe wait uw pa w
                 = emit (ok ''stopped'' [exe])
                     (snd (is_running ev exe ((next_poll ev exe ^^ k) w0)))
             \<or> dl \<le> clock ((next_poll ev exe ^^ k) w0) \<and>
               wait_for_exit ev exe wait uw pa w
                 = emit (warn ''may still be running'' [exe]) ((next_poll ev exe ^^ k) w0))) \<and>
         (clock w0 < dl \<and> \<not> fst (is_running ev exe w0) \<longrightarrow>
            wait_for_exit ev exe wait uw pa w
              = emit (ok ''stopped'' [exe]) (snd (is_running ev exe w0))) \<and>
         (dl \<le> clock w0 \<longrightarrow>
            wait_for_exit ev exe wait uw pa w = emit (warn ''may still be running'' [exe]) w0) \<and>
         files (wait_for_exit ev exe wait uw pa w) = files w \<and>
         (\<not> matches ev exe (own ev) \<longrightarrow>
            kill_processes ev exe wait uw pa w
              = (Inr (), wait_for_exit ev exe wait uw pa (terminate ev exe pa w)) \<and>
            (exe = path_name (resolve (cwd ev) (Path (exe_path cfg))) \<longrightarrow>
               agrees (deploy ev cfg w) (deploy_files (cwd ev) cfg (files w))))"
proof (intro conjI impI)
  from wait_loop_spec [of ev exe w0 dl]
  show "\<exists>k. (\<forall>j<k. clock ((next_poll ev exe ^^ j) w0) < dl \<and>
                  fst (is_running ev exe ((next_poll ev exe ^^ j) w0))) \<and>
            (clock ((next_poll ev exe ^^ k) w0) < dl \<and>
               \<not> fst (is_running ev exe ((next_poll ev exe ^^ k) w0)) \<and>
               wait_for_exit ev exe wait uw pa w
                 = emit (ok ''stopped'' [exe])
                     (snd (is_running ev exe ((next_poll ev exe ^^ k) w0)))
             \<or> dl \<le> clock ((next_poll ev exe ^^ k) w0) \<and>
               wait_for_exit ev exe wait uw pa w
                 = emit (warn ''may still be running'' [exe]) ((next_poll ev exe ^^ k) w0))"
    unfolding wait_for_exit_def assms .
next
  assume "clock w0 < dl \<and> \<not> fst (is_running ev exe w0)"
  then show "wait_for_exit ev exe wait uw pa w
      = emit (ok ''stopped'' [exe]) (snd (is_running ev exe w0))"
    unfolding wait_for_exit_def assms
    by (cases "is_running ev exe (elapse ev w)")
       (simp add: wait_loop.simps [of ev exe _ "elapse ev w"])
next
  assume "dl \<le> clock w0"
  then show "wait_for_exit ev exe wait uw pa w = emit (warn ''may still be running'' [exe]) w0"
    unfolding wait_for_exit_def assms
    by (simp add: wait_loop.simps [of ev exe _ "elapse ev w"])
next
  show "files (wait_for_exit ev exe wait uw pa w) = files w" by simp
next
  assume "\<not> matches ev exe (own ev)"
  then show "kill_processes ev exe wait uw pa w
      = (Inr (), wait_for_exit ev exe wait uw pa (terminate ev exe pa w))"
    by (simp add: kill_processes_def)
next
  assume "\<not> matches ev exe (own ev)" "exe = path_name (resolve (cwd ev) (Path (exe_path cfg)))"
  then show "agrees (deploy ev cfg w) (deploy_files (cwd ev) cfg (files w))"
    by (intro deploy_agrees) simp
qed
text \<open>
  On Windows, with no game running: success at the first poll; the warning at once when
  two seconds are taken from the wait; the termination returns and the stages go on. In
  \<open>linux_env\<close>, where every poll lists the game (and the program itself), a wait of
  half a second is three polls and three sleeps, then the warning. On Windows, with a game
  that is listed for three tenths of a second, the wait is two polls that detect it, two
  sleeps, and a third poll that does not.
\<close>

theorem wait_law_witness:
  "wait_for_exit demo_env ''S1.exe'' 1 False None demo_world
     = emit (ok ''stopped'' [''S1.exe'']) (snd (is_running demo_env ''S1.exe'' demo_world)) \<and>
   wait_for_exit demo_env ''S1.exe'' (- 2) False None demo_world
     = emit (warn ''may still be running'' [''S1.exe'']) demo_world \<and>
   kill_processes demo_env ''S1.exe'' 1 False None demo_world
     = (Inr (), wait_for_exit demo_env ''S1.exe'' 1 False None
                  (terminate demo_env ''S1.exe'' None demo_world)) \<and>
   agrees (deploy demo_env demo_cfg demo_world) (deploy_files [''proj''] demo_cfg demo_fs) \<and>
   wait_for_exit linux_env ''S1.exe'' (- 3 / 2) True None demo_world
     = \<lparr>files = demo_fs,
        trace = [Run [''pgrep'', ''-a'', ''-f'', ''S1.exe''] [], Sleep (1 / 5),
                 Run [''pgrep'', ''-a'', ''-f'', ''S1.exe''] [], Sleep (1 / 5),
                 Run [''pgrep'', ''-a'', ''-f'', ''S1.exe''] [], Sleep (1 / 5),
                 warn ''may still be running'' [''S1.exe'']],
        clock = 3 / 5\<rparr> \<and>
   wait_for_exit
       (demo_env\<lparr>tasklist := (\<lambda>n t. if t < 3 / 10 then ''S1.exe 1234 Console'' else [])\<rparr>)
       ''S1.exe'' 1 False None demo_world
     = \<lparr>files = demo_fs,
        trace = [Run [''tasklist'', ''/FI'', ''IMAGENAME eq S1.exe''] [], Sleep (1 / 5),
                 Run [''tasklist'', ''/FI'', ''IMAGENAME eq S1.exe''] [], Sleep (1 / 5),
                 Run [''tasklist'', ''/FI'', ''IMAGENAME eq S1.exe''] [],
                 ok ''stopped'' [''S1.exe'']],
        clock = 2 / 5\<rparr>"
  using wait_law [where ev = demo_env and exe = "''S1.exe''" and wait = 1 and uw = False
      and pa = None and w = demo_world and cfg = demo_cfg, OF refl refl,
      THEN conjunct2]
    wait_law [where ev = demo_env and exe = "''S1.exe''" and wait = "- 2" and uw = False
      and pa = None and w = demo_world and cfg = demo_cfg, OF refl refl,
      THEN conjunct2, THEN conjunct2, THEN conjunct1]
  by (simp add: wait_for_exit_def wait_loop.simps is_running_def run_def elapse_def emit_def
      sleep_def demo_env_def linux_env_def demo_world_def demo_cfg_def resolve_def Path_def
      parts_def path_name_def pgrep_lines_def pgrep_stdout_def str_lower_def lower_char_def
      sublist_Cons_right)

section \<open>A structured mod goes to the game's directories\<close>

text \<open>
  Claim C5. Let the add-on \<open>a\<close> have a \<^verbatim>\<open>Mods\<close> root that lists the file \<open>foo\<close> and a
  \<^verbatim>\<open>Plugins\<close> root that lists the file \<open>bar\<close>, and let the mods directory be
  \<open>g/d\<close>, an existing directory of the game directory \<open>g\<close> (which the add-on is
  not in). When \<^verbatim>\<open>copy_mod_item\<close> does not skip the add-on, the files it leaves are
  those \<^verbatim>\<open>copy_structured_mod\<close> leaves: \<open>foo\<close> is at \<open>g/d\<close> under its name and
  \<open>bar\<close> at the sibling \<open>g/Plugins\<close> under its name, each with the content of its
  source. Nothing is written in \<open>g/d\<close> under a name that the \<^verbatim>\<open>Mods\<close> root does not
  list, and nothing in \<open>g/Plugins\<close> under a name that the \<^verbatim>\<open>Plugins\<close> root does not
  list. The two destinations are not directories already, and \<open>g/Plugins\<close> is not a
  file.
\<close>

theorem structured_fan_out:
  assumes "find_subdir_case_insensitive fs a ''Mods'' = Inr (Some m)" and "iterdir fs m = Inr ms"
    and "foo \<in> set ms" and "is_file fs foo"
    and "find_subdir_case_insensitive fs a ''Plugins'' = Inr (Some pl)"
    and "iterdir fs pl = Inr ps" and "bar \<in> set ps" and "is_file fs bar"
    and "\<not> prefix a g" and "\<not> prefix g a"
    and "is_dir fs g" and "is_dir fs (g @ [d])" and "d \<noteq> ''Plugins''" and "d \<noteq> ''UserLibs''"
    and "\<not> is_file fs (g @ [''Plugins''])"
    and "\<not> is_dir fs (g @ [d, path_name foo])"
    and "\<not> is_dir fs (g @ [''Plugins'', path_name bar])"
    and "skip \<longrightarrow> has_existing fs a (g @ [d]) = Inr False"
  shows "let fs' = fst (snd (copy_mod_item a (g @ [d]) skip ts fs)) in
           fst (snd (copy_structured_mod a (g @ [d]) fs)) = fs' \<and>
           fs' (g @ [d, path_name foo]) = fs foo \<and>
           fs' (g @ [''Plugins'', path_name bar]) = fs bar \<and>
           ((\<forall>item\<in>set ms. path_name item \<noteq> n) \<longrightarrow>
              fs' (g @ d # n # r) = fs (g @ d # n # r)) \<and>
           ((\<forall>item\<in>set ps. path_name item \<noteq> n') \<longrightarrow>
              fs' (g @ ''Plugins'' # n' # r') = fs (g @ ''Plugins'' # n' # r'))"
proof -
  obtain res fs' out where cs: "copy_structured_mod a (g @ [d]) fs = (res, fs', out)"
    by (metis prod_cases3)
  from assms(1) have "has_structure fs a = Inr True" by (simp add: has_structure_def)
  from copy_mod_item_structured [OF assms(1) this assms(18)]
  have "fst (snd (copy_mod_item a (g @ [d]) skip ts fs)) = fs'"
    by (simp add: files_after_structured cs)
  moreover note fan_out [OF cs assms(1,2,5,6,9,10,11,12,15,13,14)]
  ultimately show ?thesis
    using assms(3,4,7,8,16,17) cs by (simp add: Let_def)
qed

text \<open>The scenario of the specification: \<^verbatim>\<open>/A\<close> with \<^verbatim>\<open>Mods/Foo.dll\<close> and
  \<^verbatim>\<open>Plugins/Bar.dll\<close>, copied to the mods directory \<^verbatim>\<open>/D/Mods\<close>.\<close>

theorem structured_fan_out_witness:
  "fst (snd (copy_structured_mod [''A''] [''D'', ''Mods''] demo_fs))
     = fst (snd (copy_mod_item [''A''] [''D'', ''Mods''] True False demo_fs)) \<and>
   fst (snd (copy_mod_item [''A''] [''D'', ''Mods''] True False demo_fs))
     [''D'', ''Mods'', ''Foo.dll''] = Some (File ''foo'') \<and>
   fst (snd (copy_mod_item [''A''] [''D'', ''Mods''] True False demo_fs))
     [''D'', ''Plugins'', ''Bar.dll''] = Some (File ''bar'') \<and>
   fst (snd (copy_mod_item [''A''] [''D'', ''Mods''] True False demo_fs))
     [''D'', ''Mods'', ''Bar.dll''] = None \<and>
   fst (snd (copy_mod_item [''A''] [''D'', ''Mods''] True False demo_fs))
     [''D'', ''Plugins'', ''Foo.dll''] = None"
  using structured_fan_out [where fs = demo_fs and a = "[''A'']" and m = "[''A'', ''Mods'']"
      and ms = "[[''A'', ''Mods'', ''Foo.dll'']]" and foo = "[''A'', ''Mods'', ''Foo.dll'']"
      and pl = "[''A'', ''Plugins'']" and ps = "[[''A'', ''Plugins'', ''Bar.dll'']]"
      and bar = "[''A'', ''Plugins'', ''Bar.dll'']" and g = "[''D'']" and d = "''Mods''"
      and skip = True and ts = False and n = "''Bar.dll''" and r = "[]"
      and n' = "''Foo.dll''" and r' = "[]"]
  by (simp add: demo_fs_def find_subdir_case_insensitive_def iterdir_def path_exists_def
      is_dir_def is_file_def joinpath_def path_name_def str_lower_def lower_char_def
      has_existing_def Let_def)

section \<open>A structured mod is counted whatever becomes of its entries\<close>

text \<open>
  Claim C10. A directory with one of the three roots, which \<^verbatim>\<open>copy_mod_item\<close> does not
  skip, is copied by \<^verbatim>\<open>copy_structured_mod\<close>; \<^verbatim>\<open>copy_mod_item\<close> then returns
  \<^verbatim>\<open>True\<close>, and the loop of \<^verbatim>\<open>copy_user_mods\<close> goes on with the count raised by one.
  This holds in every file system where the add-on is apart from the game directory \<open>g\<close>,
  \<open>g\<close> is a directory and neither \<^verbatim>\<open>g/Plugins\<close> nor \<^verbatim>\<open>g/UserLibs\<close> is a file (so that
  the two \<^verbatim>\<open>mkdir\<close> raise nothing), however many of the copies of the entries raise:
  an entry whose copy raises gives a warning, and the loop over the entries goes on with
  the entries that follow.
\<close>

theorem structured_copy_is_counted:
  assumes "has_structure fs p = Inr True"
    and "skip \<longrightarrow> has_existing fs p (g @ [d]) = Inr False"
    and "\<not> prefix p g" and "\<not> prefix g p" and "is_dir fs g"
    and "\<not> is_file fs (g @ [''Plugins''])" and "\<not> is_file fs (g @ [''UserLibs''])"
  shows "(\<exists>fs' out. copy_mod_item p (g @ [d]) skip ts fs = (Inr True, fs', out) \<and>
            copy_mods_loop (p # rest) (g @ [d]) (\<not> skip) ts n fs =
              said out (copy_mods_loop rest (g @ [d]) (\<not> skip) ts (n + 1) fs')) \<and>
         (copy_entry item dst fs0 = (Inl e, fs1, o1) \<longrightarrow>
            copy_entries (item # items) dst fs0 =
              (fst (copy_entries items dst fs1),
               o1 @ warn ''Failed to copy'' [path_name item, exn_name e] #
                 snd (copy_entries items dst fs1)))"
proof -
  from assms(1) have "is_dir fs p" by (rule has_structure_True)
  from copy_structured_mod_returns [OF this assms(5,3,4,6,7), of d]
  obtain fs2 o2 where "copy_structured_mod p (g @ [d]) fs = (Inr (), fs2, o2)" by auto
  with copy_mod_item_not_skipped [OF assms(1,2), of ts]
  have "copy_mod_item p (g @ [d]) skip ts fs
      = (Inr True, fs2, info ''Copying structured mod'' [path_name p] # o2)"
    by (simp add: said_def andthen_def)
  then have "\<exists>fs' out. copy_mod_item p (g @ [d]) skip ts fs = (Inr True, fs', out) \<and>
            copy_mods_loop (p # rest) (g @ [d]) (\<not> skip) ts n fs =
              said out (copy_mods_loop rest (g @ [d]) (\<not> skip) ts (n + 1) fs')"
    by (simp add: andthen_def said_def split: prod.splits)
  moreover have "copy_entry item dst fs0 = (Inl e, fs1, o1) \<longrightarrow>
            copy_entries (item # items) dst fs0 =
              (fst (copy_entries items dst fs1),
               o1 @ warn ''Failed to copy'' [path_name item, exn_name e] #
                 snd (copy_entries items dst fs1))"
    by (simp split: prod.splits)
  ultimately show ?thesis by blast
qed

text \<open>In \<open>stuck_fs\<close> the copy of each of the two entries of \<^verbatim>\<open>/S\<close> raises; the
  add-on is counted, and no file has changed.\<close>

theorem structured_copy_is_counted_witness:
  "(\<exists>fs' out. copy_mod_item [''S''] [''D'', ''Mods''] False False stuck_fs = (Inr True, fs', out) \<and>
      copy_mods_loop [[''S'']] [''D'', ''Mods''] True False 0 stuck_fs = (Inr 1, fs', out)) \<and>
   copy_mod_item [''S''] [''D'', ''Mods''] False False stuck_fs =
     (Inr True, stuck_fs,
      [info ''Copying structured mod'' [''S''], info ''Copying structure'' [''S''],
       warn ''Failed to copy'' [''sub'', ''NotADirectoryError''],
       warn ''Failed to copy'' [''lib'', ''NotADirectoryError'']]) \<and>
   copy_entry [''S'', ''Mods'', ''sub''] [''D'', ''Mods''] stuck_fs
     = (Inl NotADirectoryError, stuck_fs, [])"
  using structured_copy_is_counted [where fs = stuck_fs and p = "[''S'']" and g = "[''D'']"
      and d = "''Mods''" and skip = False and ts = False and rest = "[]" and n = 0
      and item = "[''S'', ''Mods'', ''sub'']" and dst = "[''D'', ''Mods'']" and fs0 = stuck_fs
      and e = NotADirectoryError and ?fs1.0 = stuck_fs and ?o1.0 = "[]" and items = "[]"]
  by (simp add: stuck_fs_def copy_mod_item_def has_structure_def find_subdir_case_insensitive_def
      iterdir_def path_exists_def is_dir_def is_file_def joinpath_def path_name_def path_parent_def
      str_lower_def lower_char_def copy_mod_structured_def copy_structured_mod_def copy_root_def
      copy_entry_def replace_tree_def rmtree_def attempt_def andthen_def said_def mkdir_p.simps
      info_def warn_def)

section \<open>Skipping an add-on and copying it\<close>

text \<open>
  Claim C2, as stated, fails for a structured add-on without a \<^verbatim>\<open>Mods\<close> root. The
  add-on \<^verbatim>\<open>/P\<close> of \<open>present_fs\<close> has one file, \<^verbatim>\<open>Plugins/Bar.dll\<close>, and the game
  already has it with the same content at \<^verbatim>\<open>/D/Plugins/Bar.dll\<close>; with
  \<^verbatim>\<open>skip_if_exists\<close> set, \<^verbatim>\<open>copy_mod_item\<close> still copies the add-on and returns
  \<^verbatim>\<open>True\<close>. The test that decides is not the same for every layout: for a structured
  add-on only the entries of its \<^verbatim>\<open>Mods\<close> root are looked for at the destination.
\<close>

theorem skip_law_counterexample:
  "path_exists present_fs [''P''] \<and>
   present_fs [''D'', ''Plugins'', ''Bar.dll''] = present_fs [''P'', ''Plugins'', ''Bar.dll''] \<and>
   path_exists present_fs [''D'', ''Plugins'', ''Bar.dll''] \<and>
   copy_mod_item [''P''] [''D'', ''Mods''] True False present_fs =
     (Inr True, present_fs,
      [info ''Copying structured mod'' [''P''], info ''Copying structure'' [''P'']])"
  by (simp add: present_fs_def copy_mod_item_def has_structure_def find_subdir_case_insensitive_def
      iterdir_def path_exists_def is_dir_def is_file_def joinpath_def path_name_def path_parent_def
      str_lower_def lower_char_def copy_mod_structured_def copy_structured_mod_def copy_root_def
      copy_entry_def copy2_def link_entry_def has_existing_def attempt_def andthen_def said_def
      mkdir_p.simps info_def fun_upd_twist)

text \<open>
  Claim C2, amended. \<open>already_present\<close> is the test of \<^verbatim>\<open>copy_mod_item\<close> for the layout
  of the add-on: for a file or a flat folder, that the mods directory has an entry with
  its name; for a structured add-on, that the mods directory has an entry with the name of
  one of the entries of its \<^verbatim>\<open>Mods\<close> root. For an add-on that exists: with
  \<^verbatim>\<open>skip_if_exists\<close> set and the add-on already present, \<^verbatim>\<open>copy_mod_item\<close> returns
  \<^verbatim>\<open>False\<close>, says that it skips, and leaves the files as they are; in every other
  case it does what it does when \<^verbatim>\<open>skip_if_exists\<close> is not set; and when
  \<^verbatim>\<open>skip_if_exists\<close> is not set, it returns \<^verbatim>\<open>False\<close> only after a copy that raised,
  with the warning as its last message.
\<close>

theorem skip_or_copy:
  assumes "path_exists fs p"
  shows "(skip \<and> already_present fs p d \<longrightarrow>
            copy_mod_item p d skip ts fs =
              (Inr False, fs,
               (if ts \<and> is_file fs p then [info ''Modified'' []] else []) @
               [info ''Skipping (already exists)'' [path_name p]])) \<and>
         (\<not> (skip \<and> already_present fs p d) \<longrightarrow>
            copy_mod_item p d skip ts fs = copy_mod_item p d False ts fs) \<and>
         (copy_mod_item p d False ts fs = (Inr False, fs', out) \<longrightarrow>
            (\<exists>e. last out = warn ''Failed to copy'' [path_name p, exn_name e]))"
proof (intro conjI impI)
  assume "skip \<and> already_present fs p d"
  with skip_when_present [OF assms, of d ts]
  show "copy_mod_item p d skip ts fs =
      (Inr False, fs,
       (if ts \<and> is_file fs p then [info ''Modified'' []] else []) @
       [info ''Skipping (already exists)'' [path_name p]])"
    by simp
next
  assume "\<not> (skip \<and> already_present fs p d)"
  with assms show "copy_mod_item p d skip ts fs = copy_mod_item p d False ts fs"
    by (rule not_skipped_as_forced)
next
  assume "copy_mod_item p d False ts fs = (Inr False, fs', out)"
  from forced_False [OF this assms]
  show "\<exists>e. last out = warn ''Failed to copy'' [path_name p, exn_name e]" .
qed

text \<open>In \<open>present_fs\<close>: the file \<^verbatim>\<open>Bar.dll\<close> is skipped where it is present and
  copied when the skip is not asked for; the add-on \<^verbatim>\<open>/P\<close> is copied either way.\<close>

theorem skip_or_copy_witness:
  "copy_mod_item [''P'', ''Plugins'', ''Bar.dll''] [''D'', ''Plugins''] True False present_fs =
     (Inr False, present_fs, [info ''Skipping (already exists)'' [''Bar.dll'']]) \<and>
   fst (copy_mod_item [''P'', ''Plugins'', ''Bar.dll''] [''D'', ''Plugins''] False False present_fs)
     = Inr True \<and>
   copy_mod_item [''P''] [''D'', ''Mods''] True False present_fs
     = copy_mod_item [''P''] [''D'', ''Mods''] False False present_fs"
  using skip_or_copy [where fs = present_fs and p = "[''P'', ''Plugins'', ''Bar.dll'']"
      and d = "[''D'', ''Plugins'']" and skip = True and ts = False and fs' = present_fs
      and out = "[]"]
    skip_or_copy [where fs = present_fs and p = "[''P'']" and d = "[''D'', ''Mods'']"
      and skip = True and ts = False and fs' = present_fs and out = "[]"]
  by (simp add: present_fs_def already_present_def has_structure_def has_existing_def
      find_subdir_case_insensitive_def iterdir_def path_exists_def is_dir_def is_file_def
      joinpath_def path_name_def str_lower_def lower_char_def copy_mod_item_def copy_mod_file_def
      copy2_def said_def Let_def path_parent_def link_entry_def info_def fun_upd_twist)

section \<open>The copy of the built mod\<close>

text \<open>
  Claim C4, as stated, fails when the built mod is a file and the mods directory has a
  directory with its name: \<^verbatim>\<open>shutil.copy2\<close> then puts the file into that directory,
  under its name once more, and the directory is not replaced.
\<close>

theorem built_mod_counterexample:
  "is_file nested_fs [''proj'', ''MyMod.dll''] \<and>
   is_dir nested_fs [''D'', ''Mods'', ''MyMod.dll''] \<and>
   fst (copy_item [''proj'', ''MyMod.dll''] [''D'', ''Mods''] nested_fs) = Inr () \<and>
   fst (snd (copy_item [''proj'', ''MyMod.dll''] [''D'', ''Mods''] nested_fs))
     [''D'', ''Mods'', ''MyMod.dll''] = Some (Dir [''MyMod.dll'']) \<and>
   fst (snd (copy_item [''proj'', ''MyMod.dll''] [''D'', ''Mods''] nested_fs))
     [''D'', ''Mods'', ''MyMod.dll'', ''MyMod.dll''] = Some (File ''mymod'')"
  by (simp add: nested_fs_def copy_item_def copy2_def link_entry_def attempt_def said_def
      is_dir_def is_file_def path_exists_def joinpath_def path_name_def path_parent_def Let_def)

text \<open>
  Claim C4, amended. \<^verbatim>\<open>copy_item\<close> has no parameter for a skip or a force: \<open>main\<close>
  calls it on every run that reaches it. Let the built mod \<open>src\<close> exist, apart from
  the mods directory \<open>dst\<close>, which is a directory, and let \<open>t\<close> be the path in \<open>dst\<close>
  with the name of the built mod.
  \<^item> When \<open>t\<close> is not there or is of the kind of the built mod (no directory where the
    built mod is a file, no file where it is a directory), \<^verbatim>\<open>copy_item\<close> raises nothing
    and leaves at \<open>t\<close> the content of the built mod: the file, or the whole directory and
    nothing else.
  \<^item> When the built mod is a file and \<open>t\<close> a directory, the file is copied into \<open>t\<close>
    under its name and \<open>t\<close> stays a directory; unless \<open>t\<close> has a directory of that name,
    and then \<^verbatim>\<open>shutil.copy2\<close> raises \<^verbatim>\<open>IsADirectoryError\<close> and no file changes.
  \<^item> When the built mod is a directory and \<open>t\<close> a file, \<^verbatim>\<open>shutil.rmtree\<close> raises
    \<^verbatim>\<open>NotADirectoryError\<close> and no file changes.
  \<^item> A run of the stages that returns a total has copied the built mod last, without an
    exception, and its total is that of the add-ons and one more.
\<close>

theorem built_mod_is_copied:
  assumes "path_exists fs src" and "path_name src \<noteq> []"
    and "\<not> prefix src dst" and "\<not> prefix dst src" and "is_dir fs dst"
    and "t = dst @ [path_name src]"
  shows "((is_file fs src \<and> \<not> is_dir fs t \<or> is_dir fs src \<and> \<not> is_file fs t) \<longrightarrow>
            (\<exists>fs'. copy_item src dst fs
               = (Inr (), fs', [info ''Copying to'' (path_name src # dst)]) \<and>
              fs' t = fs src \<and> (is_dir fs src \<longrightarrow> fs' (t @ r) = fs (src @ r)))) \<and>
         (is_file fs src \<and> is_dir fs t \<and> \<not> is_dir fs (t @ [path_name src]) \<longrightarrow>
            (\<exists>fs'. copy_item src dst fs
               = (Inr (), fs', [info ''Copying to'' (path_name src # dst)]) \<and>
              is_dir fs' t \<and> fs' (t @ [path_name src]) = fs src)) \<and>
         (is_file fs src \<and> is_dir fs t \<and> is_dir fs (t @ [path_name src]) \<longrightarrow>
            copy_item src dst fs
              = (Inl IsADirectoryError, fs, [info ''Copying to'' (path_name src # dst)])) \<and>
         (is_dir fs src \<and> is_file fs t \<longrightarrow>
            copy_item src dst fs
              = (Inl NotADirectoryError, fs, [info ''Copying to'' (path_name src # dst)])) \<and>
         (fst (deploy_files wd cfg fs0) = Inr copied \<longrightarrow>
            (\<exists>n fs3 fs4 o1 o2.
               copy_addons wd cfg fs3 = (Inr n, fs4, o1) \<and>
               copy_item (resolve wd (Path (target cfg))) (resolve wd (Path (mods_dir cfg))) fs4
                 = (Inr (), fst (snd (deploy_files wd cfg fs0)), o2) \<and>
               copied = n + 1))"
proof (intro conjI impI)
  assume kind: "is_file fs src \<and> \<not> is_dir fs t \<or> is_dir fs src \<and> \<not> is_file fs t"
  show "\<exists>fs'. copy_item src dst fs = (Inr (), fs', [info ''Copying to'' (path_name src # dst)]) \<and>
          fs' t = fs src \<and> (is_dir fs src \<longrightarrow> fs' (t @ r) = fs (src @ r))"
  proof (cases "is_dir fs src")
    case True
    with kind have nf: "\<not> is_file fs t" by (auto dest: not_file_and_dir)
    from assms(4) have np: "\<not> prefix t src"
      unfolding assms(6) using not_prefix_snoc [of dst src "path_name src"] by simp
    from True assms(5) nf np obtain fs' where rt: "replace_tree src t fs = (Inr (), fs', [])"
      using replace_tree_ok [of fs src t] by (auto simp: assms(6))
    from replace_tree_copied [OF rt] assms(3,4)
    have "fs' (t @ r') = fs (src @ r')" for r' by (simp add: assms(6))
    from this [of "[]"] this [of r] rt True assms(2) show ?thesis
      by (simp add: copy_item_def joinpath_snoc said_def assms(6))
  next
    case False
    with assms(1) kind have f: "is_file fs src" "\<not> is_dir fs t" by (auto simp: exists_iff)
    have "src \<noteq> t"
    proof
      assume "src = t"
      then have "prefix dst src" unfolding assms(6) by (metis prefixI)
      with assms(4) show False by simp
    qed
    with f assms(5) obtain fs' where c: "copy2 fs src t = Inr fs'"
      using copy2_ok [of fs src t] by (auto simp: assms(6))
    from copy2_written(1) [OF c] f have "fs' t = fs src" by simp
    with c False assms(2) show ?thesis
      by (simp add: copy_item_def joinpath_snoc said_def attempt_def assms(6))
  qed
next
  let ?u = "t @ [path_name src]"
  assume a: "is_file fs src \<and> is_dir fs t \<and> \<not> is_dir fs ?u"
  have "src \<noteq> ?u"
  proof
    assume "src = ?u"
    then have "prefix dst src" unfolding assms(6) by (metis append.assoc prefixI)
    with assms(4) show False by simp
  qed
  with a obtain fs' where c: "copy2 fs src ?u = Inr fs'"
    using copy2_ok [of fs src ?u] by auto
  with a assms(2) have c': "copy2 fs src t = Inr fs'"
    by (simp add: copy2_def joinpath_snoc Let_def)
  from copy2_written(1) [OF c] a have "fs' ?u = fs src" by simp
  moreover from copy2_kinds(1) [OF c, of t] a have "is_dir fs' t" by simp
  moreover from a have "\<not> is_dir fs src" by (auto dest: not_file_and_dir)
  ultimately show "\<exists>fs'. copy_item src dst fs
       = (Inr (), fs', [info ''Copying to'' (path_name src # dst)]) \<and>
      is_dir fs' t \<and> fs' ?u = fs src"
    using c' assms(2) by (simp add: copy_item_def joinpath_snoc said_def attempt_def assms(6))
next
  let ?u = "t @ [path_name src]"
  assume a: "is_file fs src \<and> is_dir fs t \<and> is_dir fs ?u"
  have "src \<noteq> ?u"
  proof
    assume "src = ?u"
    then have "prefix dst src" unfolding assms(6) by (metis append.assoc prefixI)
    with assms(4) show False by simp
  qed
  with a assms(2) have "copy2 fs src t = Inl IsADirectoryError"
    by (auto simp: copy2_def joinpath_snoc Let_def is_file_iff)
  moreover from a have "\<not> is_dir fs src" by (auto dest: not_file_and_dir)
  ultimately show "copy_item src dst fs
      = (Inl IsADirectoryError, fs, [info ''Copying to'' (path_name src # dst)])"
    using assms(2) by (simp add: copy_item_def joinpath_snoc said_def attempt_def assms(6))
next
  assume a: "is_dir fs src \<and> is_file fs t"
  then have "rmtree fs t = Inl NotADirectoryError" "path_exists fs t"
    by (auto simp: rmtree_def is_file_iff path_exists_def)
  with a assms(2) show "copy_item src dst fs
      = (Inl NotADirectoryError, fs, [info ''Copying to'' (path_name src # dst)])"
    by (simp add: copy_item_def joinpath_snoc said_def replace_tree_def attempt_def andthen_def
        assms(6))
next
  assume "fst (deploy_files wd cfg fs0) = Inr copied"
  then have "deploy_files wd cfg fs0
      = (Inr copied, fst (snd (deploy_files wd cfg fs0)), snd (snd (deploy_files wd cfg fs0)))"
    by (cases "deploy_files wd cfg fs0") simp
  then show "\<exists>n fs3 fs4 o1 o2.
               copy_addons wd cfg fs3 = (Inr n, fs4, o1) \<and>
               copy_item (resolve wd (Path (target cfg))) (resolve wd (Path (mods_dir cfg))) fs4
                 = (Inr (), fst (snd (deploy_files wd cfg fs0)), o2) \<and>
               copied = n + 1"
    by (rule deploy_files_total)
qed
text \<open>
  In \<open>stale_fs\<close> the older built mod is overwritten and the older directory
  \<^verbatim>\<open>Pack\<close> replaced: its file \<^verbatim>\<open>b.txt\<close> is gone. In \<open>nested_fs\<close> the file goes into
  the directory of its name, and raises when that directory has a directory of that name.
  In \<open>stuck_fs\<close> a directory meets a file. The run in \<open>stale_fs\<close> with the add-on
  \<^verbatim>\<open>Extra.dll\<close> has the total 2.
\<close>

theorem built_mod_is_copied_witness:
  "stale_fs [''D'', ''Mods'', ''MyMod.dll''] = Some (File ''old'') \<and>
   (\<exists>fs'. copy_item [''proj'', ''MyMod.dll''] [''D'', ''Mods''] stale_fs
       = (Inr (), fs', [info ''Copying to'' [''MyMod.dll'', ''D'', ''Mods'']]) \<and>
      fs' [''D'', ''Mods'', ''MyMod.dll''] = Some (File ''mymod'')) \<and>
   stale_fs [''D'', ''Mods'', ''Pack'', ''b.txt''] = Some (File ''stale'') \<and>
   (\<exists>fs'. copy_item [''proj'', ''Pack''] [''D'', ''Mods''] stale_fs
       = (Inr (), fs', [info ''Copying to'' [''Pack'', ''D'', ''Mods'']]) \<and>
      fs' [''D'', ''Mods'', ''Pack''] = Some (Dir [''a.txt'']) \<and>
      fs' [''D'', ''Mods'', ''Pack'', ''b.txt''] = None) \<and>
   (\<exists>fs'. copy_item [''proj'', ''Pack''] [''D'', ''Mods''] stale_fs
       = (Inr (), fs', [info ''Copying to'' [''Pack'', ''D'', ''Mods'']]) \<and>
      fs' [''D'', ''Mods'', ''Pack'', ''a.txt''] = Some (File ''new'')) \<and>
   (\<exists>fs'. copy_item [''proj'', ''MyMod.dll''] [''D'', ''Mods''] nested_fs
       = (Inr (), fs', [info ''Copying to'' [''MyMod.dll'', ''D'', ''Mods'']]) \<and>
      is_dir fs' [''D'', ''Mods'', ''MyMod.dll''] \<and>
      fs' [''D'', ''Mods'', ''MyMod.dll'', ''MyMod.dll''] = Some (File ''mymod'')) \<and>
   copy_item [''proj'', ''MyMod.dll''] [''D'', ''Mods'']
       (nested_fs([''D'', ''Mods'', ''MyMod.dll'', ''MyMod.dll''] \<mapsto> Dir []))
     = (Inl IsADirectoryError,
        nested_fs([''D'', ''Mods'', ''MyMod.dll'', ''MyMod.dll''] \<mapsto> Dir []),
        [info ''Copying to'' [''MyMod.dll'', ''D'', ''Mods'']]) \<and>
   copy_item [''S'', ''Mods'', ''sub''] [''D'', ''Mods''] stuck_fs
     = (Inl NotADirectoryError, stuck_fs, [info ''Copying to'' [''sub'', ''D'', ''Mods'']]) \<and>
   fst (deploy_files [''proj''] (demo_cfg\<lparr>mod_list := [''Extra.dll'']\<rparr>) stale_fs) = Inr 2 \<and>
   (\<exists>n fs3 fs4 o1 o2.
      copy_addons [''proj''] (demo_cfg\<lparr>mod_list := [''Extra.dll'']\<rparr>) fs3 = (Inr n, fs4, o1) \<and>
      copy_item [''proj'', ''MyMod.dll''] [''D'', ''Mods''] fs4
        = (Inr (),
           fst (snd (deploy_files [''proj''] (demo_cfg\<lparr>mod_list := [''Extra.dll'']\<rparr>) stale_fs)),
           o2) \<and>
      2 = n + 1)"
proof -
  have total: "fst (deploy_files [''proj''] (demo_cfg\<lparr>mod_list := [''Extra.dll'']\<rparr>) stale_fs) = Inr 2"
    by (simp add: deploy_files_def demo_cfg_def resolve_def Path_def parts_def ensure_dir_def
        mkdir_p_dir is_dir_def stale_fs_def attempt_def andthen_def said_def copy_addons_def
        copy_user_mods_def user_mod_path_def copy_library_mods_def copy_library_mod_def
        copy_mod_item_def copy_mod_file_def copy_item_def copy2_def
        link_entry_def is_file_def path_exists_def joinpath_def path_name_def path_parent_def
        Let_def)
  have paths:
    "resolve [''proj''] (Path (target (demo_cfg\<lparr>mod_list := [''Extra.dll'']\<rparr>))) = [''proj'', ''MyMod.dll'']"
    "resolve [''proj''] (Path (mods_dir (demo_cfg\<lparr>mod_list := [''Extra.dll'']\<rparr>))) = [''D'', ''Mods'']"
    by (simp_all add: demo_cfg_def resolve_def Path_def parts_def)
  note kinds = is_dir_def is_file_def path_exists_def path_name_def
  from built_mod_is_copied [where fs = stale_fs and src = "[''proj'', ''MyMod.dll'']"
      and dst = "[''D'', ''Mods'']" and wd = "[''proj'']"
      and cfg = "demo_cfg\<lparr>mod_list := [''Extra.dll'']\<rparr>" and ?fs0.0 = stale_fs and copied = 2
      and r = "[]", OF _ _ _ _ _ refl] total
  have ovw: "stale_fs [''D'', ''Mods'', ''MyMod.dll''] = Some (File ''old'') \<and>
   (\<exists>fs'. copy_item [''proj'', ''MyMod.dll''] [''D'', ''Mods''] stale_fs
       = (Inr (), fs', [info ''Copying to'' [''MyMod.dll'', ''D'', ''Mods'']]) \<and>
      fs' [''D'', ''Mods'', ''MyMod.dll''] = Some (File ''mymod'')) \<and>
   (\<exists>n fs3 fs4 o1 o2.
      copy_addons [''proj''] (demo_cfg\<lparr>mod_list := [''Extra.dll'']\<rparr>) fs3 = (Inr n, fs4, o1) \<and>
      copy_item [''proj'', ''MyMod.dll''] [''D'', ''Mods''] fs4
        = (Inr (),
           fst (snd (deploy_files [''proj''] (demo_cfg\<lparr>mod_list := [''Extra.dll'']\<rparr>) stale_fs)),
           o2) \<and>
      2 = n + 1)"
    unfolding paths by (simp add: stale_fs_def kinds)
  from built_mod_is_copied [where fs = stale_fs and src = "[''proj'', ''Pack'']"
      and dst = "[''D'', ''Mods'']" and r = "[''b.txt'']", OF _ _ _ _ _ refl, THEN conjunct1]
  have dir1: "stale_fs [''D'', ''Mods'', ''Pack'', ''b.txt''] = Some (File ''stale'') \<and>
   (\<exists>fs'. copy_item [''proj'', ''Pack''] [''D'', ''Mods''] stale_fs
       = (Inr (), fs', [info ''Copying to'' [''Pack'', ''D'', ''Mods'']]) \<and>
      fs' [''D'', ''Mods'', ''Pack''] = Some (Dir [''a.txt'']) \<and>
      fs' [''D'', ''Mods'', ''Pack'', ''b.txt''] = None)"
    by (simp add: stale_fs_def kinds)
  from built_mod_is_copied [where fs = stale_fs and src = "[''proj'', ''Pack'']"
      and dst = "[''D'', ''Mods'']" and r = "[''a.txt'']", OF _ _ _ _ _ refl, THEN conjunct1]
  have dir2: "\<exists>fs'. copy_item [''proj'', ''Pack''] [''D'', ''Mods''] stale_fs
       = (Inr (), fs', [info ''Copying to'' [''Pack'', ''D'', ''Mods'']]) \<and>
      fs' [''D'', ''Mods'', ''Pack'', ''a.txt''] = Some (File ''new'')"
    by (auto simp: stale_fs_def kinds)
  from built_mod_is_copied [where fs = nested_fs and src = "[''proj'', ''MyMod.dll'']"
      and dst = "[''D'', ''Mods'']", OF _ _ _ _ _ refl, THEN conjunct2, THEN conjunct1]
  have nested: "\<exists>fs'. copy_item [''proj'', ''MyMod.dll''] [''D'', ''Mods''] nested_fs
       = (Inr (), fs', [info ''Copying to'' [''MyMod.dll'', ''D'', ''Mods'']]) \<and>
      is_dir fs' [''D'', ''Mods'', ''MyMod.dll''] \<and>
      fs' [''D'', ''Mods'', ''MyMod.dll'', ''MyMod.dll''] = Some (File ''mymod'')"
    by (simp add: nested_fs_def kinds)
  from built_mod_is_copied [where src = "[''proj'', ''MyMod.dll'']" and dst = "[''D'', ''Mods'']"
      and fs = "nested_fs([''D'', ''Mods'', ''MyMod.dll'', ''MyMod.dll''] \<mapsto> Dir [])",
      OF _ _ _ _ _ refl, THEN conjunct2, THEN conjunct2, THEN conjunct1]
  have deep: "copy_item [''proj'', ''MyMod.dll''] [''D'', ''Mods'']
       (nested_fs([''D'', ''Mods'', ''MyMod.dll'', ''MyMod.dll''] \<mapsto> Dir []))
     = (Inl IsADirectoryError,
        nested_fs([''D'', ''Mods'', ''MyMod.dll'', ''MyMod.dll''] \<mapsto> Dir []),
        [info ''Copying to'' [''MyMod.dll'', ''D'', ''Mods'']])"
    by (simp add: nested_fs_def kinds)
  from built_mod_is_copied [where fs = stuck_fs and src = "[''S'', ''Mods'', ''sub'']"
      and dst = "[''D'', ''Mods'']", OF _ _ _ _ _ refl, THEN conjunct2, THEN conjunct2,
      THEN conjunct2, THEN conjunct1]
  have over: "copy_item [''S'', ''Mods'', ''sub''] [''D'', ''Mods''] stuck_fs
     = (Inl NotADirectoryError, stuck_fs, [info ''Copying to'' [''sub'', ''D'', ''Mods'']])"
    by (simp add: stuck_fs_def kinds)
  from ovw dir1 dir2 nested deep over total show ?thesis by blast
qed

section \<open>The siblings of the mods directory\<close>

text \<open>
  Claim C9. Let the mods directory be \<open>g/d\<close> and \<open>x\<close> another name (\<^verbatim>\<open>Plugins\<close> or
  \<^verbatim>\<open>UserLibs\<close>, when the mods directory itself does not have that name). If no add-on
  of the run, each of them apart from the game directory \<open>g\<close>, has a root for \<open>x\<close>
  (a subdirectory whose name is \<open>x\<close> but for the case), then \<open>g/x\<close> is a directory
  after the run only if it was one before: neither the stages that copy nor the whole of
  \<^verbatim>\<open>main\<close> make it, whatever the flags, and whether the run ends or raises.
\<close>

theorem sibling_is_not_made:
  assumes "resolve (cwd ev) (Path (mods_dir cfg)) = g @ [d]" and "d \<noteq> x"
    and "\<forall>p\<in>set (addon_sources (cwd ev) cfg). \<not> prefix p g \<and> \<not> prefix g p \<and>
           (\<forall>sub. find_subdir_case_insensitive (files w) p x \<noteq> Inr (Some sub))"
  shows "is_dir (files (snd (deploy ev cfg w))) (g @ [x]) = is_dir (files w) (g @ [x]) \<and>
         is_dir (files (snd (main ev cfg w))) (g @ [x]) = is_dir (files w) (g @ [x])"
proof -
  obtain r fs' out where run: "deploy_files (cwd ev) cfg (files w) = (r, fs', out)"
    by (metis prod_cases3)
  from run assms have "sibling_kept g x (files w) fs'" by (rule deploy_files_sibling_kept)
  then have 1: "is_dir fs' (g @ [x]) = is_dir (files w) (g @ [x])" by (simp add: sibling_kept_def)
  have 2: "is_dir b (g @ [x]) = is_dir (files w) (g @ [x])"
    if "mkdir_p (files w) (resolve (cwd ev) (Path (mods_dir cfg))) = Inr b" for b
    using mkdir_p_sibling_kept [OF that [unfolded assms(1)] assms(2)]
    by (simp add: sibling_kept_def)
  from 1 2 run deploy_files_cases [of ev cfg w] main_files [of ev cfg w]
  show ?thesis by auto
qed

text \<open>The example installation with the one add-on \<^verbatim>\<open>Extra.dll\<close>, a plain file: the run
  ends with two copies made and no \<^verbatim>\<open>/D/Plugins\<close>; with the add-on \<^verbatim>\<open>Pack\<close> of the
  example configuration, which has a \<^verbatim>\<open>Plugins\<close> root, the directory is made.\<close>

theorem sibling_is_not_made_witness:
  "fst (deploy demo_env (demo_cfg\<lparr>mod_list := [''Extra.dll'']\<rparr>) demo_world) = Inr 2 \<and>
   \<not> is_dir (files (snd (deploy demo_env (demo_cfg\<lparr>mod_list := [''Extra.dll'']\<rparr>) demo_world)))
       [''D'', ''Plugins''] \<and>
   \<not> is_dir (files (snd (main demo_env (demo_cfg\<lparr>mod_list := [''Extra.dll'']\<rparr>) demo_world)))
       [''D'', ''Plugins''] \<and>
   is_dir (fst (snd (deploy_files [''proj''] demo_cfg demo_fs))) [''D'', ''Plugins'']"
proof -
  have run: "fst (deploy_files [''proj''] (demo_cfg\<lparr>mod_list := [''Extra.dll'']\<rparr>) demo_fs) = Inr 2"
    "is_dir (fst (snd (deploy_files [''proj''] demo_cfg demo_fs))) [''D'', ''Plugins'']"
    by (simp_all add: deploy_files_def demo_cfg_def resolve_def Path_def parts_def ensure_dir_def
        mkdir_p.simps is_dir_def demo_fs_def attempt_def andthen_def said_def copy_addons_def
        copy_user_mods_def user_mod_path_def copy_library_mods_def copy_library_mod_def
        copy_item_def copy2_def link_entry_def is_file_def path_exists_def joinpath_def
        path_name_def path_parent_def copy_mod_item_def copy_mod_file_def copy_mod_structured_def
        copy_structured_mod_def copy_root_def copy_entry_def has_structure_def has_existing_def
        find_subdir_case_insensitive_def iterdir_def str_lower_def lower_char_def
        replace_tree_def Let_def)
  have "\<not> matches demo_env
      (path_name (resolve (cwd demo_env) (Path (exe_path (demo_cfg\<lparr>mod_list := [''Extra.dll'']\<rparr>)))))
      (own demo_env)"
    by (simp add: demo_env_def demo_cfg_def resolve_def Path_def parts_def path_name_def
        str_lower_def lower_char_def)
  from deploy_files_of(1) [OF this, of demo_world] run(1)
  have "fst (deploy demo_env (demo_cfg\<lparr>mod_list := [''Extra.dll'']\<rparr>) demo_world) = Inr 2"
    by (simp add: demo_env_def demo_world_def)
  with run(2)
    sibling_is_not_made [where ev = demo_env and cfg = "demo_cfg\<lparr>mod_list := [''Extra.dll'']\<rparr>"
      and w = demo_world and g = "[''D'']" and d = "''Mods''" and x = "''Plugins''"]
  show ?thesis
    by (simp add: demo_env_def demo_cfg_def demo_world_def demo_fs_def addon_sources_def
        user_mod_path_def resolve_def Path_def parts_def find_subdir_case_insensitive_def
        iterdir_def path_exists_def is_dir_def)
qed

end
